theory Spec2Isabelle
  imports Complex_Main "HOL-Library.Char_ord" "HOL-Library.List_Lexorder"
begin

section \<open>Data model (src/app.js, lines 16-55)\<close>

text \<open>
  Every number of the program is an IEEE 754 double. The monetary fields hold doubles with
  integer values (every value that reaches them went through \<open>Math.round\<close> or is a
  sum or difference of such values); they are modelled as \<open>int\<close>, and every
  arithmetic result is rounded to the nearest double (section on numbers below). Dollar
  amounts are doubles, modelled as the real numbers they denote. \<open>NaN\<close> and the
  infinities are outside the model.

  Both classes have a field \<open>id\<close>; the record fields are \<open>id_env\<close> and \<open>id_tx\<close>.
  A transaction's \<open>note\<close> is the field \<open>note_tx\<close>.
  An envelope reference of a transaction is \<open>null\<close> (\<open>None\<close>) or a string.
\<close>

record envelope =
  id_env :: string
  name :: string
  targetCents :: int
  balanceCents :: int
  isIncome :: bool
  isOverflow :: bool
  isCreditCard :: bool
  isActive :: bool

record transaction =
  id_tx :: string
  timestamp :: string
  fromEnvelopeId :: "string option"
  toEnvelopeId :: "string option"
  amountCents :: int
  note_tx :: string

record settings =
  transactionRetentionDays :: "int option"

record state =
  envelopes :: "envelope list"
  transactions :: "transaction list"
  bankBalanceCents :: int
  settings :: settings

text \<open>The \<open>flags\<close> argument of the \<open>Envelope\<close> constructor: each property may be absent.\<close>

record flags =
  isIncome_flag :: "bool option"
  isOverflow_flag :: "bool option"
  isCreditCard_flag :: "bool option"
  isActive_flag :: "bool option"

text \<open>\<open>!!x\<close> of an optional boolean, and \<open>x !== false\<close>.\<close>

definition truthy :: "bool option \<Rightarrow> bool" where
  "truthy b = (case b of None \<Rightarrow> False | Some v \<Rightarrow> v)"

definition not_false :: "bool option \<Rightarrow> bool" where
  "not_false b = (case b of None \<Rightarrow> True | Some v \<Rightarrow> v)"

definition Envelope :: "string \<Rightarrow> string \<Rightarrow> int \<Rightarrow> int \<Rightarrow> flags \<Rightarrow> envelope" where
  "Envelope i n t b fl =
     \<lparr>id_env = i, name = n, targetCents = t, balanceCents = b,
      isIncome = truthy (isIncome_flag fl),
      isOverflow = truthy (isOverflow_flag fl),
      isCreditCard = truthy (isCreditCard_flag fl),
      isActive = not_false (isActive_flag fl)\<rparr>"

text \<open>\<open>x || null\<close> on an envelope reference: the empty string is falsy.\<close>

definition or_null :: "string option \<Rightarrow> string option" where
  "or_null x = (case x of None \<Rightarrow> None | Some s \<Rightarrow> if s = [] then None else Some s)"

definition Transaction ::
  "string \<Rightarrow> string \<Rightarrow> string option \<Rightarrow> string option \<Rightarrow> int \<Rightarrow> string \<Rightarrow> transaction" where
  "Transaction i ts fr to a n =
     \<lparr>id_tx = i, timestamp = ts, fromEnvelopeId = or_null fr, toEnvelopeId = or_null to,
      amountCents = a, note_tx = n\<rparr>"

definition State :: state where
  "State = \<lparr>envelopes = [], transactions = [], bankBalanceCents = 0,
            settings = \<lparr>transactionRetentionDays = Some 30\<rparr>\<rparr>"

section \<open>Numbers: IEEE 754 doubles\<close>

text \<open>
  A double is zero or \<open>m * 2^(e - 52)\<close> with an integer significand
  \<open>2^52 \<le> |m| < 2^53\<close>. The result of \<open>+\<close>, \<open>-\<close>, \<open>*\<close> and \<open>/\<close> is the
  exact result rounded to the nearest double, ties to the even significand: \<open>fl64\<close>.
  The exponent range is not bounded here, so the model agrees with the program as long as
  results are zero or of magnitude between \<open>2^-1022\<close> and \<open>2^1024\<close> (no overflow to
  infinity, no subnormal result).

  \<open>bitlength n\<close> is the number of binary digits of \<open>n\<close>; \<open>expo x\<close> is the exponent
  \<open>e\<close> with \<open>2^e \<le> |x| < 2^(e+1)\<close>; \<open>rne\<close> rounds to the nearest integer, ties to
  even.
\<close>

fun bitlength :: "nat \<Rightarrow> nat" where
  "bitlength n = (if n = 0 then 0 else Suc (bitlength (n div 2)))"

definition expo :: "real \<Rightarrow> int" where
  "expo x =
     (if \<bar>x\<bar> \<ge> 1 then int (bitlength (nat \<lfloor>\<bar>x\<bar>\<rfloor>)) - 1
      else - int (bitlength (nat (\<lceil>1 / \<bar>x\<bar>\<rceil> - 1))))"

definition rne :: "real \<Rightarrow> int" where
  "rne y =
     (let f = \<lfloor>y\<rfloor>; r = y - of_int f
      in if r < 1 / 2 then f
         else if 1 / 2 < r then f + 1
         else if even f then f else f + 1)"

definition fl64 :: "real \<Rightarrow> real" where
  "fl64 x = (if x = 0 then 0
           else (let u = 2 powi (expo x - 52) in of_int (rne (x / u)) * u))"

text \<open>
  The double nearest to an integer is an integer: \<open>dbl\<close> is \<open>fl64\<close> on the integer-valued
  monetary fields.
\<close>

definition dbl :: "int \<Rightarrow> int" where
  "dbl n = \<lfloor>fl64 (of_int n)\<rfloor>"

text \<open>
  \<open>Math.round\<close> gives the integer nearest to its argument, ties towards plus infinity;
  it is computed exactly.
\<close>

definition Math_round :: "real \<Rightarrow> int" where
  "Math_round x = \<lfloor>x + 1 / 2\<rfloor>"

section \<open>Money helpers (lines 3-5)\<close>

text \<open>\<open>Math.round(Number(d || 0) * 100)\<close>: the product is a double operation.\<close>

definition dollarsToCents :: "real \<Rightarrow> int" where
  "dollarsToCents d = Math_round (fl64 (d * 100))"

section \<open>Object references\<close>

text \<open>
  \<open>Array.prototype.find\<close> returns a reference to the first matching object and the code
  then mutates that object in place. Every envelope object sits at exactly one position of
  \<open>state.envelopes\<close>, so a reference is modelled as that position: \<open>findIndex\<close> gives
  the position of the first match (\<open>None\<close> when \<open>find\<close> gives \<open>undefined\<close> or
  \<open>findIndex\<close> gives \<open>-1\<close>), and a field assignment through the reference is \<open>modify\<close>.
\<close>

fun findIndex :: "('a \<Rightarrow> bool) \<Rightarrow> 'a list \<Rightarrow> nat option" where
  "findIndex P [] = None"
| "findIndex P (x # xs) = (if P x then Some 0 else map_option Suc (findIndex P xs))"

definition modify :: "nat \<Rightarrow> ('a \<Rightarrow> 'a) \<Rightarrow> 'a list \<Rightarrow> 'a list" where
  "modify k f xs = xs[k := f (xs ! k)]"

text \<open>
  \<open>if (ref) { const e = state.envelopes.find(e => e.id === ref); if (e) ... }\<close>:
  the envelope a transaction's reference resolves to, if any.
\<close>

definition resolve :: "envelope list \<Rightarrow> string option \<Rightarrow> nat option" where
  "resolve envs r =
     (case r of
        None \<Rightarrow> None
      | Some i \<Rightarrow> if i = [] then None else findIndex (\<lambda>e. id_env e = i) envs)"

section \<open>Balance application engine (lines 436-452)\<close>

text \<open>
  \<open>from.balanceCents -= sign * tx.amountCents\<close> is a double multiplication followed by a
  double subtraction.
\<close>

definition applyTransactionToBalances :: "transaction \<Rightarrow> int \<Rightarrow> envelope list \<Rightarrow> envelope list" where
  "applyTransactionToBalances tx direction envs =
     (let sign = direction;
          envs1 = (case resolve envs (fromEnvelopeId tx) of
                     None \<Rightarrow> envs
                   | Some k \<Rightarrow>
                       modify k
                         (\<lambda>e. e\<lparr>balanceCents :=
                                 dbl (balanceCents e - dbl (sign * amountCents tx))\<rparr>)
                         envs)
      in (case resolve envs1 (toEnvelopeId tx) of
            None \<Rightarrow> envs1
          | Some k \<Rightarrow>
              modify k
                (\<lambda>e. e\<lparr>balanceCents := dbl (balanceCents e + dbl (sign * amountCents tx))\<rparr>)
                envs1))"


section \<open>Envelope operations (lines 187-406)\<close>

text \<open>
  \<open>state.envelopes.filter(P)\<close> gives an array of references to the matching objects, in
  order: the positions of the matching envelopes. \<open>refs.forEach(e => { e.f = v })\<close>
  assigns through each reference in turn.
\<close>

definition indices :: "('a \<Rightarrow> bool) \<Rightarrow> 'a list \<Rightarrow> nat list" where
  "indices P xs = filter (\<lambda>k. P (xs ! k)) [0..<length xs]"

definition forEach :: "nat list \<Rightarrow> ('a \<Rightarrow> 'a) \<Rightarrow> 'a list \<Rightarrow> 'a list" where
  "forEach ks f xs = fold (\<lambda>k ys. modify k f ys) ks xs"

definition income_new :: envelope where
  "income_new = Envelope ''env_income'' ''Income'' 0 0
     \<lparr>isIncome_flag = Some True, isOverflow_flag = Some False,
      isCreditCard_flag = Some False, isActive_flag = Some True\<rparr>"

definition overflow_new :: envelope where
  "overflow_new = Envelope ''env_overflow'' ''Overflow'' 0 0
     \<lparr>isIncome_flag = Some False, isOverflow_flag = Some True,
      isCreditCard_flag = Some False, isActive_flag = Some True\<rparr>"

text \<open>
  \<open>ensureCoreEnvelopes\<close> on the envelope array. Both filters are taken before any flag is
  cleared; \<open>slice(1)\<close> is \<open>drop 1\<close>. \<open>saveState\<close> only serialises the state.
\<close>

definition ensureCore :: "envelope list \<Rightarrow> envelope list" where
  "ensureCore envs =
     (let incomeEnvs = indices isIncome envs;
          overflowEnvs = indices isOverflow envs;
          envs1 = (if length incomeEnvs > 1
                   then forEach (drop 1 incomeEnvs) (\<lambda>e. e\<lparr>isIncome := False\<rparr>) envs
                   else envs);
          envs2 = (if length overflowEnvs > 1
                   then forEach (drop 1 overflowEnvs) (\<lambda>e. e\<lparr>isOverflow := False\<rparr>) envs1
                   else envs1);
          envs3 = (case findIndex isIncome envs2 of
                     None \<Rightarrow> envs2 @ [income_new]
                   | Some i \<Rightarrow> modify i (\<lambda>e. e\<lparr>targetCents := 0, isActive := True\<rparr>) envs2)
      in (case findIndex isOverflow envs3 of
            None \<Rightarrow> envs3 @ [overflow_new]
          | Some i \<Rightarrow> modify i (\<lambda>e. e\<lparr>targetCents := 0, isActive := True\<rparr>) envs3))"

definition ensureCoreEnvelopes :: "state \<Rightarrow> state" where
  "ensureCoreEnvelopes s = s\<lparr>envelopes := ensureCore (envelopes s)\<rparr>"

definition isCoreEnvelope :: "envelope \<Rightarrow> bool" where
  "isCoreEnvelope env = (isIncome env \<or> isOverflow env)"

definition getIncomeEnvelope :: "state \<Rightarrow> nat option" where
  "getIncomeEnvelope s = findIndex isIncome (envelopes s)"

text \<open>
  \<open>addEnvelope\<close>: the id is \<open>'env_' + Date.now() + '_' + Math.random()...\<close>; the part
  after \<open>env_\<close> is the parameter \<open>u\<close>.
\<close>

definition addEnvelope :: "string \<Rightarrow> real \<Rightarrow> flags \<Rightarrow> string \<Rightarrow> state \<Rightarrow> state" where
  "addEnvelope n targetDollars fl u s =
     (if n = [] then s
      else s\<lparr>envelopes :=
               envelopes s @ [Envelope (''env_'' @ u) n (dollarsToCents targetDollars) 0 fl]\<rparr>)"

text \<open>The \<open>updates\<close> object of \<open>updateEnvelope\<close>: \<open>None\<close> is a property that is \<open>null\<close> or absent.\<close>

record envelope_updates =
  name_upd :: "string option"
  targetDollars_upd :: "real option"
  isIncome_upd :: "bool option"
  isOverflow_upd :: "bool option"
  isCreditCard_upd :: "bool option"
  isActive_upd :: "bool option"

definition assign :: "'b option \<Rightarrow> ('b \<Rightarrow> 'a \<Rightarrow> 'a) \<Rightarrow> 'a \<Rightarrow> 'a" where
  "assign v set_field e = (case v of None \<Rightarrow> e | Some x \<Rightarrow> set_field x e)"

definition updateEnvelope :: "string \<Rightarrow> envelope_updates \<Rightarrow> state \<Rightarrow> state" where
  "updateEnvelope i updates s =
     (case findIndex (\<lambda>e. id_env e = i) (envelopes s) of
        None \<Rightarrow> s
      | Some k \<Rightarrow>
          (let core = isCoreEnvelope (envelopes s ! k);
               step1 = (\<lambda>e. if \<not> core
                             then assign (targetDollars_upd updates)
                                    (\<lambda>d e. e\<lparr>targetCents := dollarsToCents d\<rparr>)
                                    (assign (name_upd updates) (\<lambda>n e. e\<lparr>name := n\<rparr>) e)
                             else e);
               step2 = assign (isIncome_upd updates) (\<lambda>b e. e\<lparr>isIncome := b\<rparr>);
               step3 = assign (isOverflow_upd updates) (\<lambda>b e. e\<lparr>isOverflow := b\<rparr>);
               step4 = assign (isCreditCard_upd updates) (\<lambda>b e. e\<lparr>isCreditCard := b\<rparr>);
               step5 = (\<lambda>e. if \<not> core
                             then assign (isActive_upd updates) (\<lambda>b e. e\<lparr>isActive := b\<rparr>) e
                             else e)
           in s\<lparr>envelopes :=
                  modify k (\<lambda>e. step5 (step4 (step3 (step2 (step1 e))))) (envelopes s)\<rparr>))"

text \<open>
  \<open>getTotalAllocationsCents\<close> reads \<open>env.isCore\<close> and \<open>env.isCredit\<close>. The \<open>Envelope\<close>
  class (lines 20-31) has no such properties (its flags are \<open>isIncome\<close>, \<open>isOverflow\<close>,
  \<open>isCreditCard\<close>, \<open>isActive\<close>, and \<open>loadState\<close> rebuilds every envelope through the
  constructor), so both reads give \<open>undefined\<close>, which is falsy.
\<close>

definition isCore :: "envelope \<Rightarrow> bool" where
  "isCore env = False"

definition isCredit :: "envelope \<Rightarrow> bool" where
  "isCredit env = False"

definition getTotalAllocationsCents :: "state \<Rightarrow> int" where
  "getTotalAllocationsCents s =
     foldl (\<lambda>sum env. dbl (sum + targetCents env)) 0
       (filter (\<lambda>env. \<not> isCore env \<and> \<not> isCredit env \<and> targetCents env > 0) (envelopes s))"

text \<open>\<open>cleanupUnusedEnvelopes\<close>: \<open>usedIds\<close> is a \<open>Set\<close>; a falsy reference is not added.\<close>

definition add_ref :: "string option \<Rightarrow> string set \<Rightarrow> string set" where
  "add_ref r used = (case r of None \<Rightarrow> used | Some i \<Rightarrow> if i = [] then used else insert i used)"

definition usedIds :: "transaction list \<Rightarrow> string set" where
  "usedIds txs =
     fold (\<lambda>tx used. add_ref (toEnvelopeId tx) (add_ref (fromEnvelopeId tx) used)) txs {}"

definition keep :: "string set \<Rightarrow> envelope \<Rightarrow> bool" where
  "keep used env =
     (if isCoreEnvelope env then True
      else if isActive env then True
      else if balanceCents env \<noteq> 0 then True
      else if id_env env \<in> used then True
      else False)"

definition cleanupUnusedEnvelopes :: "state \<Rightarrow> state" where
  "cleanupUnusedEnvelopes s =
     s\<lparr>envelopes := filter (keep (usedIds (transactions s))) (envelopes s)\<rparr>"

section \<open>Transaction operations (lines 409-534)\<close>

text \<open>
  \<open>addTransaction\<close>: \<open>newId\<close> stands for \<open>crypto.randomUUID()\<close> and \<open>now\<close> for
  \<open>new Date().toISOString()\<close>. The caller gives \<open>log\<close>, here \<open>log'\<close>
  (\<open>true\<close> when the property is left out). Rendering and \<open>saveState\<close> do not change the state.
\<close>

definition addTransaction ::
  "string option \<Rightarrow> string option \<Rightarrow> real \<Rightarrow> string \<Rightarrow> bool \<Rightarrow> string \<Rightarrow> string \<Rightarrow> state \<Rightarrow> state" where
  "addTransaction fr to amountDollars nt log' newId now s =
     (let amount = dollarsToCents amountDollars
      in if amount = 0 then s
         else
           (let tx = Transaction newId now (or_null fr) (or_null to) amount nt;
                s1 = s\<lparr>envelopes := applyTransactionToBalances tx 1 (envelopes s)\<rparr>
            in if log' then s1\<lparr>transactions := transactions s1 @ [tx]\<rparr> else s1))"

text \<open>
  The \<open>updates\<close> object of \<open>updateTransaction\<close>: \<open>None\<close> is a property that is
  \<open>undefined\<close>; a reference that is given may itself be \<open>null\<close>.
\<close>

record transaction_updates =
  fromEnvelopeId_upd :: "string option option"
  toEnvelopeId_upd :: "string option option"
  amountDollars_upd :: "real option"
  note_upd :: "string option"

definition updateTransaction :: "string \<Rightarrow> transaction_updates \<Rightarrow> state \<Rightarrow> state" where
  "updateTransaction i updates s =
     (case findIndex (\<lambda>t. id_tx t = i) (transactions s) of
        None \<Rightarrow> s
      | Some index \<Rightarrow>
          (let oldTx = transactions s ! index;
               envs1 = applyTransactionToBalances oldTx (-1) (envelopes s);
               newTx = Transaction (id_tx oldTx) (timestamp oldTx)
                         (case fromEnvelopeId_upd updates of
                            None \<Rightarrow> fromEnvelopeId oldTx | Some r \<Rightarrow> r)
                         (case toEnvelopeId_upd updates of
                            None \<Rightarrow> toEnvelopeId oldTx | Some r \<Rightarrow> r)
                         (case amountDollars_upd updates of
                            None \<Rightarrow> amountCents oldTx | Some d \<Rightarrow> dollarsToCents d)
                         (case note_upd updates of None \<Rightarrow> note_tx oldTx | Some n \<Rightarrow> n);
               envs2 = applyTransactionToBalances newTx 1 envs1
           in s\<lparr>envelopes := envs2, transactions := (transactions s)[index := newTx]\<rparr>))"

definition reactivate :: "string option \<Rightarrow> envelope list \<Rightarrow> envelope list" where
  "reactivate envId envs =
     (case resolve envs envId of
        None \<Rightarrow> envs
      | Some k \<Rightarrow>
          if \<not> isActive (envs ! k) then modify k (\<lambda>e. e\<lparr>isActive := True\<rparr>) envs else envs)"

text \<open>\<open>splice(index, 1)\<close> removes the element at \<open>index\<close>.\<close>

definition splice1 :: "nat \<Rightarrow> 'a list \<Rightarrow> 'a list" where
  "splice1 index xs = take index xs @ drop (Suc index) xs"

definition deleteTransaction :: "string \<Rightarrow> state \<Rightarrow> state" where
  "deleteTransaction i s =
     (case findIndex (\<lambda>t. id_tx t = i) (transactions s) of
        None \<Rightarrow> s
      | Some index \<Rightarrow>
          (let tx = transactions s ! index;
               envs1 = fold reactivate [fromEnvelopeId tx, toEnvelopeId tx] (envelopes s);
               envs2 = applyTransactionToBalances tx (-1) envs1
           in s\<lparr>envelopes := envs2, transactions := splice1 index (transactions s)\<rparr>))"

text \<open>
  \<open>pruneOldTransactions\<close>. The parameter \<open>cutoffISO\<close> stands for the clock and the
  \<open>Date\<close> arithmetic: \<open>cutoffISO days\<close> is the string
  \<open>(d = new Date(); d.setDate(d.getDate() - days); d.toISOString())\<close>.
  Strings are compared lexicographically, character by character.
\<close>

definition retentionDays :: "state \<Rightarrow> int" where
  "retentionDays s =
     (case transactionRetentionDays (settings s) of
        None \<Rightarrow> 45
      | Some d \<Rightarrow> if d = 0 then 45 else d)"

definition pruneOldTransactions :: "(int \<Rightarrow> string) \<Rightarrow> state \<Rightarrow> state" where
  "pruneOldTransactions cutoffISO s =
     (let days = retentionDays s;
          cutoff = cutoffISO days
      in s\<lparr>transactions := filter (\<lambda>tx. timestamp tx \<ge> cutoff) (transactions s)\<rparr>)"

section \<open>Envelope deletion and auto-allocation (lines 287-328, 550-600)\<close>

text \<open>
  \<open>ok\<close> is the answer of \<open>confirm\<close>; the note quotes the envelope's name;
  \<open>env.balanceCents / 100\<close> is a double division.
\<close>

definition merge_note :: "string \<Rightarrow> string" where
  "merge_note n = ''Auto-merge from deleted envelope '' @ [CHR 0x22] @ n @ [CHR 0x22]"

definition deleteEnvelope :: "string \<Rightarrow> bool \<Rightarrow> string \<Rightarrow> string \<Rightarrow> state \<Rightarrow> state" where
  "deleteEnvelope i ok newId now s =
     (case findIndex (\<lambda>e. id_env e = i) (envelopes s) of
        None \<Rightarrow> s
      | Some k \<Rightarrow>
          (let env = envelopes s ! k
           in if isCoreEnvelope env then s
              else
                (case getIncomeEnvelope s of
                   None \<Rightarrow> s
                 | Some m \<Rightarrow>
                     (let income = envelopes s ! m
                      in if balanceCents env \<noteq> 0
                         then
                           (let amountDollars = fl64 (of_int (balanceCents env) / 100)
                            in if \<not> ok then s
                               else
                                 (let s1 = addTransaction (Some (id_env env)) (Some (id_env income))
                                             amountDollars (merge_note (name env)) True newId now s
                                  in s1\<lparr>envelopes :=
                                          modify k (\<lambda>e. e\<lparr>isActive := False\<rparr>) (envelopes s1)\<rparr>))
                         else s\<lparr>envelopes :=
                                  modify k (\<lambda>e. e\<lparr>isActive := False\<rparr>) (envelopes s)\<rparr>))))"

definition isTarget :: "envelope \<Rightarrow> bool" where
  "isTarget env =
     (isActive env \<and> \<not> isCoreEnvelope env \<and> \<not> isCreditCard env \<and> targetCents env > 0)"

definition totalToAllocateCents :: "envelope list \<Rightarrow> int" where
  "totalToAllocateCents envs =
     foldl (\<lambda>sum k. dbl (sum + targetCents (envs ! k))) 0 (indices isTarget envs)"

text \<open>
  \<open>autoAllocate\<close>: \<open>m\<close> is the reference \<open>income\<close>, \<open>targets\<close> the references selected by
  the filter; each iteration reads \<open>income.id\<close>, \<open>env.id\<close> and \<open>env.targetCents\<close> from the
  objects as they are then. The transactions are built with \<open>log: false\<close> and dropped, so
  one \<open>newId\<close> and \<open>now\<close> serve every iteration. The total only appears in the
  confirmation message.
\<close>

definition autoAllocate :: "bool \<Rightarrow> string \<Rightarrow> string \<Rightarrow> state \<Rightarrow> state" where
  "autoAllocate ok newId now s =
     (case getIncomeEnvelope s of
        None \<Rightarrow> s
      | Some m \<Rightarrow>
          (let targets = indices isTarget (envelopes s)
           in if length targets = 0 then s
              else if \<not> ok then s
              else
                fold (\<lambda>k s'.
                        (let env = envelopes s' ! k;
                             income = envelopes s' ! m;
                             amountDollars = fl64 (of_int (targetCents env) / 100)
                         in addTransaction (Some (id_env income)) (Some (id_env env))
                              amountDollars ''Auto allocation'' False newId now s'))
                  targets s))"

section \<open>The public operations\<close>

datatype operation =
    AddEnvelope string real flags string
  | UpdateEnvelope string envelope_updates
  | DeleteEnvelope string bool string string
  | AddTransaction "string option" "string option" real string bool string string
  | UpdateTransaction string transaction_updates
  | DeleteTransaction string
  | AutoAllocate bool string string
  | PruneOldTransactions "int \<Rightarrow> string"
  | CleanupUnusedEnvelopes

fun run :: "operation \<Rightarrow> state \<Rightarrow> state" where
  "run (AddEnvelope n d fl u) s = addEnvelope n d fl u s"
| "run (UpdateEnvelope i updates) s = updateEnvelope i updates s"
| "run (DeleteEnvelope i ok newId now) s = deleteEnvelope i ok newId now s"
| "run (AddTransaction fr to d nt log' newId now) s = addTransaction fr to d nt log' newId now s"
| "run (UpdateTransaction i updates) s = updateTransaction i updates s"
| "run (DeleteTransaction i) s = deleteTransaction i s"
| "run (AutoAllocate ok newId now) s = autoAllocate ok newId now s"
| "run (PruneOldTransactions cutoffISO) s = pruneOldTransactions cutoffISO s"
| "run CleanupUnusedEnvelopes s = cleanupUnusedEnvelopes s"

section \<open>Properties stated by the specification\<close>

text \<open>The change a transaction makes to the balance of the envelope at position \<open>j\<close>.\<close>

definition delta :: "envelope list \<Rightarrow> transaction \<Rightarrow> nat \<Rightarrow> int" where
  "delta envs tx j =
     (if resolve envs (toEnvelopeId tx) = Some j then amountCents tx else 0)
     - (if resolve envs (fromEnvelopeId tx) = Some j then amountCents tx else 0)"

text \<open>
  A transaction as the \<open>Transaction\<close> constructor leaves it: a falsy reference has become
  \<open>null\<close>. Every transaction of a state is built by the constructor (\<open>loadState\<close>,
  \<open>addTransaction\<close>, \<open>updateTransaction\<close>).
\<close>

definition constructed :: "transaction \<Rightarrow> bool" where
  "constructed tx =
     (or_null (fromEnvelopeId tx) = fromEnvelopeId tx \<and>
      or_null (toEnvelopeId tx) = toEnvelopeId tx)"

text \<open>
  The specification's words for the envelopes the garbage collector removes: not core,
  inactive, zero balance, and referenced by no transaction.
\<close>

definition removable :: "transaction list \<Rightarrow> envelope \<Rightarrow> bool" where
  "removable txs env =
     (\<not> isCoreEnvelope env \<and> \<not> isActive env \<and> balanceCents env = 0 \<and>
      (\<forall>tx\<in>set txs.
         fromEnvelopeId tx \<noteq> Some (id_env env) \<and> toEnvelopeId tx \<noteq> Some (id_env env)))"

text \<open>
  The core-envelope invariant of the data model: exactly one envelope has \<open>isIncome\<close>,
  exactly one has \<open>isOverflow\<close>, and these are active with a target of zero.
\<close>

definition core_invariant :: "envelope list \<Rightarrow> bool" where
  "core_invariant envs =
     (length (filter isIncome envs) = 1 \<and> length (filter isOverflow envs) = 1 \<and>
      (\<forall>e\<in>set envs. isCoreEnvelope e \<longrightarrow> isActive e \<and> targetCents e = 0))"

text \<open>What the core invariant reads of one envelope.\<close>

definition core_sig :: "envelope \<Rightarrow> bool \<times> bool \<times> bool" where
  "core_sig e = (isIncome e, isOverflow e, isCoreEnvelope e \<longrightarrow> isActive e \<and> targetCents e = 0)"

text \<open>
  The operations that leave the flags \<open>isIncome\<close> and \<open>isOverflow\<close> alone:
  \<open>addEnvelope\<close> with flags that set neither, \<open>updateEnvelope\<close> with a patch that
  has neither, and every other operation.
\<close>

fun flag_neutral :: "operation \<Rightarrow> bool" where
  "flag_neutral (AddEnvelope n d fl u) =
     (\<not> truthy (isIncome_flag fl) \<and> \<not> truthy (isOverflow_flag fl))"
| "flag_neutral (UpdateEnvelope i updates) =
     (isIncome_upd updates = None \<and> isOverflow_upd updates = None)"
| "flag_neutral op = True"

text \<open>
  Every stored transaction has a nonzero amount; and the operations that do not recompute
  a stored amount from a decimal (all but \<open>updateTransaction\<close> with \<open>amountDollars\<close>
  in its patch).
\<close>

definition amounts_nonzero :: "state \<Rightarrow> bool" where
  "amounts_nonzero s = (\<forall>t\<in>set (transactions s). amountCents t \<noteq> 0)"

fun amount_kept :: "operation \<Rightarrow> bool" where
  "amount_kept (UpdateTransaction i updates) = (amountDollars_upd updates = None)"
| "amount_kept op = True"

text \<open>The envelope at position \<open>j\<close> is the one a reference of the transaction resolves to.\<close>

definition refers :: "envelope list \<Rightarrow> transaction \<Rightarrow> nat \<Rightarrow> bool" where
  "refers envs tx j =
     (resolve envs (fromEnvelopeId tx) = Some j \<or> resolve envs (toEnvelopeId tx) = Some j)"

text \<open>
  The balance the code leaves in the envelope at position \<open>j\<close> when it applies a
  transaction: each assignment rounds twice, the product and the sum.
\<close>

definition balance_after :: "envelope list \<Rightarrow> transaction \<Rightarrow> int \<Rightarrow> nat \<Rightarrow> int" where
  "balance_after envs tx d j =
     (let b = balanceCents (envs ! j);
          b1 = (if resolve envs (fromEnvelopeId tx) = Some j
                then dbl (b - dbl (d * amountCents tx)) else b)
      in if resolve envs (toEnvelopeId tx) = Some j
         then dbl (b1 + dbl (d * amountCents tx)) else b1)"

text \<open>
  Every envelope whose id the transaction names has a balance that stays, with the
  amount added or subtracted, within the integers that doubles hold exactly
  (magnitude at most \<open>2^53\<close>).
\<close>

definition exact_range :: "envelope list \<Rightarrow> transaction \<Rightarrow> bool" where
  "exact_range envs tx =
     (\<forall>e\<in>set envs.
        fromEnvelopeId tx = Some (id_env e) \<or> toEnvelopeId tx = Some (id_env e) \<longrightarrow>
        \<bar>balanceCents e\<bar> + \<bar>amountCents tx\<bar> \<le> 2 ^ 53)"

text \<open>
  Envelope ids as the program generates them (\<open>env_...\<close>, \<open>card_...\<close> with a time stamp
  and a random part): pairwise distinct and not empty.
\<close>

definition ids_wf :: "envelope list \<Rightarrow> bool" where
  "ids_wf envs = (distinct (map id_env envs) \<and> (\<forall>e\<in>set envs. id_env e \<noteq> []))"

section \<open>Example states\<close>

text \<open>\<open>flags = {}\<close>, the default of \<open>addEnvelope\<close>.\<close>

definition no_flags :: flags where
  "no_flags = \<lparr>isIncome_flag = None, isOverflow_flag = None,
               isCreditCard_flag = None, isActive_flag = None\<rparr>"

text \<open>A fresh budget to which \<open>addEnvelope('Visa', 25, {isCreditCard: true})\<close> was applied.\<close>

definition card_state :: state where
  "card_state =
     addEnvelope ''Visa'' 25 (no_flags\<lparr>isCreditCard_flag := Some True\<rparr>) ''1''
       (ensureCoreEnvelopes State)"

text \<open>
  A clock on 3 November 2026, 10:00 UTC, and a budget whose retention setting is \<open>0\<close> days
  holding one transaction of 20 October 2026.
\<close>

definition clock_example :: "int \<Rightarrow> string" where
  "clock_example days =
     (if days = 0 then ''2026-11-03T10:00:00.000Z''
      else if days = 45 then ''2026-09-19T10:00:00.000Z''
      else if days = 30 then ''2026-10-04T10:00:00.000Z''
      else ''1970-01-01T00:00:00.000Z'')"

definition tx_october :: transaction where
  "tx_october =
     Transaction ''tx_1'' ''2026-10-20T08:30:00.000Z'' None (Some ''env_income'') 10000 ''Income''"

definition zero_retention_state :: state where
  "zero_retention_state =
     (ensureCoreEnvelopes State)\<lparr>transactions := [tx_october],
        settings := \<lparr>transactionRetentionDays = Some 0\<rparr>\<rparr>"

text \<open>A patch with no property, and the budgets of the specification's scenarios.\<close>

definition no_updates :: envelope_updates where
  "no_updates = \<lparr>name_upd = None, targetDollars_upd = None, isIncome_upd = None,
                 isOverflow_upd = None, isCreditCard_upd = None, isActive_upd = None\<rparr>"

definition fresh_state :: state where
  "fresh_state = ensureCoreEnvelopes State"

definition funded_state :: state where
  "funded_state =
     addTransaction None (Some ''env_income'') 100 ''New Income'' True
       ''tx_1'' ''2026-11-01T09:00:00.000Z'' fresh_state"

definition groceries_state :: state where
  "groceries_state = addEnvelope ''Groceries'' 50 no_flags ''1'' funded_state"

definition allocated_state :: state where
  "allocated_state = autoAllocate True ''tx_a'' ''2026-11-01T09:05:00.000Z'' groceries_state"

definition overdrawn_state :: state where
  "overdrawn_state =
     addTransaction (Some ''env_1'') None 5 ''Lunch'' True
       ''tx_2'' ''2026-11-01T12:00:00.000Z'' groceries_state"

definition merged_state :: state where
  "merged_state = deleteEnvelope ''env_1'' True ''tx_3'' ''2026-11-02T09:00:00.000Z'' allocated_state"

definition gc_state :: state where
  "gc_state =
     deleteEnvelope ''env_2'' True ''tx_4'' ''2026-11-02T10:00:00.000Z''
       (addEnvelope ''Old'' 0 no_flags ''2'' merged_state)"

text \<open>
  Budgets at the edge of the exactly representable integers: an Income balance of
  \<open>2^53\<close> cents, and one of \<open>-2^53\<close> cents with a stored transaction of one cent into
  Income.
\<close>

definition tx_cent :: transaction where
  "tx_cent =
     Transaction ''tx_c'' ''2026-11-01T09:00:00.000Z'' None (Some ''env_income'') 1 ''One cent''"

definition big_envs :: "envelope list" where
  "big_envs = [income_new\<lparr>balanceCents := 9007199254740992\<rparr>, overflow_new]"

definition debt_state :: state where
  "debt_state =
     \<lparr>envelopes = [income_new\<lparr>balanceCents := - 9007199254740992\<rparr>, overflow_new],
      transactions = [tx_cent], bankBalanceCents = 0,
      settings = \<lparr>transactionRetentionDays = Some 30\<rparr>\<rparr>"

text \<open>
  A budget with two envelopes of id \<open>env_income\<close>: the flag \<open>isIncome\<close> of the Income
  envelope was cleared by \<open>updateEnvelope\<close>, \<open>ensureCoreEnvelopes\<close> then made a new Income
  envelope with the fixed id, and Groceries (target 50.00) was added.
\<close>

definition twin_state :: state where
  "twin_state =
     addEnvelope ''Groceries'' 50 no_flags ''1''
       (ensureCoreEnvelopes
          (updateEnvelope ''env_income'' (no_updates\<lparr>isIncome_upd := Some False\<rparr>) fresh_state))"

section \<open>Facts about doubles\<close>

declare bitlength.simps [simp del]

lemma bitlength_Suc_0 [simp]: "bitlength (Suc 0) = Suc 0"
  by (simp add: bitlength.simps [of "Suc 0"] bitlength.simps [of 0])

lemma bitlength_bounds:
  "0 < n \<Longrightarrow> 2 ^ (bitlength n - 1) \<le> n \<and> n < 2 ^ bitlength n"
proof (induction n rule: bitlength.induct)
  case (1 n)
  show ?case
  proof (cases "n div 2 = 0")
    case True
    with "1.prems" have "n = 1" by (simp add: div_eq_0_iff) 
    then show ?thesis by simp
  next
    case False
    then have pos: "0 < n div 2" by simp
    from "1.IH" [OF _ pos] "1.prems"
    have ih: "2 ^ (bitlength (n div 2) - 1) \<le> n div 2" "n div 2 < 2 ^ bitlength (n div 2)"
      by simp_all
    have b: "bitlength n = Suc (bitlength (n div 2))"
      using "1.prems" by (subst bitlength.simps) simp
    have bp: "0 < bitlength (n div 2)"
      using pos by (subst bitlength.simps) simp
    define P :: nat where "P = 2 ^ (bitlength (n div 2) - 1)"
    from bp have p2: "(2::nat) ^ bitlength (n div 2) = 2 * P"
      by (cases "bitlength (n div 2)") (simp_all add: P_def)
    from ih have "P \<le> n div 2" "n div 2 < 2 * P" by (simp_all add: P_def p2)
    then have "2 * P \<le> n \<and> n < 2 * (2 * P)" by arith
    then show ?thesis unfolding b by (simp add: p2)
  qed
qed

lemma bitlength_pos: "0 < n \<Longrightarrow> 0 < bitlength n"
  by (subst bitlength.simps) simp

lemma powi_eq_power: "0 \<le> k \<Longrightarrow> (2::real) powi k = 2 ^ nat k"
  by (simp add: power_int_def)

lemma expo_bounds:
  assumes "x \<noteq> 0"
  shows "2 powi (expo x) \<le> \<bar>x\<bar> \<and> \<bar>x\<bar> < 2 powi (expo x + 1)"
proof (cases "\<bar>x\<bar> \<ge> 1")
  case True
  define n where "n = nat \<lfloor>\<bar>x\<bar>\<rfloor>"
  have n: "0 < n" "real n \<le> \<bar>x\<bar>" "\<bar>x\<bar> < real n + 1"
    using True by (simp_all add: n_def; linarith)+
  define k where "k = bitlength n"
  have k: "0 < k" "2 ^ (k - 1) \<le> n" "n < 2 ^ k"
    using bitlength_bounds [OF n(1)] bitlength_pos [OF n(1)] by (simp_all add: k_def)
  have e: "expo x = int k - 1" using True by (simp add: expo_def n_def k_def)
  have "(2::real) ^ (k - 1) \<le> real n"
    using k(2) by (metis of_nat_le_iff of_nat_numeral of_nat_power)
  then have "(2::real) ^ (k - 1) \<le> \<bar>x\<bar>" using n(2) by (rule order_trans)
  moreover have "(2::real) powi (int k - 1) = 2 ^ (k - 1)"
    using k(1) by (simp add: powi_eq_power nat_diff_distrib)
  ultimately have lo: "2 powi (int k - 1) \<le> \<bar>x\<bar>" by simp
  have "n + 1 \<le> 2 ^ k" using k(3) by simp
  then have "real n + 1 \<le> 2 ^ k"
    by (metis of_nat_1 of_nat_add of_nat_le_iff of_nat_numeral of_nat_power)
  with n(3) have "\<bar>x\<bar> < 2 ^ k" by (rule less_le_trans)
  then have hi: "\<bar>x\<bar> < 2 powi (int k - 1 + 1)"
    by (simp add: powi_eq_power)
  from lo hi show ?thesis unfolding e by simp
next
  case False
  then have x1: "0 < \<bar>x\<bar>" "\<bar>x\<bar> < 1" using assms by simp_all
  define y where "y = 1 / \<bar>x\<bar>"
  have y: "1 < y" using x1 by (simp add: y_def)
  define n where "n = nat (\<lceil>y\<rceil> - 1)"
  have c2: "2 \<le> \<lceil>y\<rceil>" using y by linarith
  have n: "0 < n" "real n < y" "y \<le> real n + 1"
    using c2 by (simp_all add: n_def; linarith)+
  define k where "k = bitlength n"
  have k: "0 < k" "2 ^ (k - 1) \<le> n" "n < 2 ^ k"
    using bitlength_bounds [OF n(1)] bitlength_pos [OF n(1)] by (simp_all add: k_def)
  have e: "expo x = - int k" using False by (simp add: expo_def n_def k_def y_def)
  have "(2::real) ^ (k - 1) \<le> real n"
    using k(2) by (metis of_nat_le_iff of_nat_numeral of_nat_power)
  then have lo: "2 ^ (k - 1) < y" using n(2) by (rule le_less_trans)
  have "n + 1 \<le> 2 ^ k" using k(3) by simp
  then have "real n + 1 \<le> 2 ^ k"
    by (metis of_nat_1 of_nat_add of_nat_le_iff of_nat_numeral of_nat_power)
  with n(3) have hi: "y \<le> 2 ^ k" by (rule order_trans)
  have xy: "\<bar>x\<bar> = 1 / y" using x1 by (simp add: y_def)
  have "1 / 2 ^ k \<le> 1 / y" using hi y by (simp add: frac_le)
  then have a: "2 powi (- int k) \<le> \<bar>x\<bar>"
    by (simp add: xy power_int_minus divide_inverse)
  have "1 / y < 1 / 2 ^ (k - 1)" using lo by (simp add: frac_less2)
  moreover have "(2::real) powi (- int k + 1) = 1 / 2 ^ (k - 1)"
    using k(1) by (cases k) (simp_all add: power_int_def nat_add_distrib field_simps)
  ultimately have b: "\<bar>x\<bar> < 2 powi (- int k + 1)" by (simp add: xy)
  from a b show ?thesis unfolding e by simp
qed

lemma powi_less_iff: "(2::real) powi a < 2 powi b \<longleftrightarrow> a < b"
proof
  assume l: "(2::real) powi a < 2 powi b"
  show "a < b"
  proof (rule ccontr)
    assume "\<not> a < b"
    then have "b \<le> a" by simp
    then have "(2::real) powi b \<le> 2 powi a" by (intro power_int_increasing) simp_all
    with l show False by simp
  qed
next
  assume "a < b"
  then show "(2::real) powi a < 2 powi b" by (intro power_int_strict_increasing) simp_all
qed

lemma powi_le_iff: "(2::real) powi a \<le> 2 powi b \<longleftrightarrow> a \<le> b"
  using powi_less_iff [of b a] by (simp add: not_less [symmetric])

lemma powi_bound_nonzero: "2 powi e \<le> \<bar>x\<bar> \<Longrightarrow> x \<noteq> (0::real)"
proof -
  assume a: "2 powi e \<le> \<bar>x\<bar>"
  have "(0::real) < 2 powi e" by simp
  then have "0 < \<bar>x\<bar>" using a by (rule less_le_trans)
  then show ?thesis by simp
qed

lemma expo_unique:
  assumes "2 powi e \<le> \<bar>x\<bar>" "\<bar>x\<bar> < 2 powi (e + 1)"
  shows "expo x = e"
proof -
  have x: "x \<noteq> 0" using assms(1) by (rule powi_bound_nonzero)
  note b = expo_bounds [OF x]
  have "(2::real) powi e < 2 powi (expo x + 1)" using assms(1) b by linarith
  then have 1: "e < expo x + 1" by (simp only: powi_less_iff)
  have "(2::real) powi (expo x) < 2 powi (e + 1)" using assms(2) b by linarith
  then have 2: "expo x < e + 1" by (simp only: powi_less_iff)
  from 1 2 show ?thesis by simp
qed

lemma rne_of_int [simp]: "rne (of_int m) = m"
  by (simp add: rne_def)

lemma rne_error: "\<bar>of_int (rne y) - y\<bar> \<le> 1 / 2"
proof -
  have "of_int \<lfloor>y\<rfloor> \<le> y" "y < of_int \<lfloor>y\<rfloor> + 1" by linarith+
  then show ?thesis by (auto simp: rne_def Let_def)
qed

lemma fl64_eval:
  assumes "2 powi e \<le> \<bar>x\<bar>" "\<bar>x\<bar> < 2 powi (e + 1)"
  shows "fl64 x = of_int (rne (x / 2 powi (e - 52))) * 2 powi (e - 52)"
proof -
  have "x \<noteq> 0" using assms(1) by (rule powi_bound_nonzero)
  then show ?thesis by (simp add: fl64_def Let_def expo_unique [OF assms])
qed

lemma fl64_0 [simp]: "fl64 0 = 0"
  by (simp add: fl64_def)

lemma fl64_exact:
  assumes "x / 2 powi (expo x - 52) = of_int m"
  shows "fl64 x = x"
proof (cases "x = 0")
  case True
  then show ?thesis by simp
next
  case False
  have u: "(2::real) powi (expo x - 52) \<noteq> 0" by simp
  from False show ?thesis
    by (simp add: fl64_def Let_def assms) (metis assms nonzero_divide_eq_eq u)
qed

lemma fl64_error: "\<bar>fl64 x - x\<bar> \<le> \<bar>x\<bar> / 2 ^ 53"
proof (cases "x = 0")
  case True
  then show ?thesis by simp
next
  case False
  define u :: real where "u = 2 powi (expo x - 52)"
  have u: "0 < u" by (simp add: u_def)
  have f: "fl64 x = of_int (rne (x / u)) * u" using False by (simp add: fl64_def Let_def u_def)
  have "fl64 x - x = (of_int (rne (x / u)) - x / u) * u"
    using u by (simp add: f field_simps)
  then have "\<bar>fl64 x - x\<bar> = \<bar>of_int (rne (x / u)) - x / u\<bar> * u"
    using u by (simp add: abs_mult)
  also have "\<dots> \<le> 1 / 2 * u"
    using rne_error [of "x / u"] u by (intro mult_right_mono) simp_all
  also have "u = 2 powi (expo x) / 2 ^ 52"
    by (simp add: u_def power_int_diff)
  also have "1 / 2 * (2 powi (expo x) / 2 ^ 52) \<le> 1 / 2 * (\<bar>x\<bar> / 2 ^ 52)"
    using expo_bounds [OF False] by (intro mult_left_mono divide_right_mono) simp_all
  finally show ?thesis by simp
qed

lemma fl64_of_int:
  assumes "\<bar>n\<bar> \<le> 2 ^ 53"
  shows "fl64 (of_int n) = of_int n"
proof (cases "n = 0")
  case True
  then show ?thesis by simp
next
  case False
  define e where "e = expo (of_int n)"
  have x: "real_of_int n \<noteq> 0" using False by simp
  have b: "2 powi e \<le> \<bar>real_of_int n\<bar>" "\<bar>real_of_int n\<bar> < 2 powi (e + 1)"
    using expo_bounds [OF x] by (simp_all add: e_def)
  have "\<bar>real_of_int n\<bar> \<le> 2 ^ 53"
    using assms by (metis of_int_abs of_int_le_iff of_int_numeral of_int_power)
  then have "(2::real) powi e \<le> 2 powi 53" using b(1) by simp
  then have e53: "e \<le> 53" by (simp only: powi_le_iff)
  have "1 \<le> \<bar>n\<bar>" using False by simp
  then have "(1::real) \<le> of_int \<bar>n\<bar>" by (simp only: of_int_1_le_iff)
  then have "1 \<le> \<bar>real_of_int n\<bar>" by simp
  then have "(2::real) powi 0 < 2 powi (e + 1)" using b(2) by simp
  then have "0 < e + 1" by (simp only: powi_less_iff)
  then have e0: "0 \<le> e" by simp
  show ?thesis
  proof (cases "e \<le> 52")
    case True
    have "(2::real) powi (e - 52) = 1 / 2 ^ nat (52 - e)"
      using True by (simp add: power_int_def power_one_over)
    then have "real_of_int n / 2 powi (e - 52) = of_int (n * 2 ^ nat (52 - e))"
      by simp
    then show ?thesis unfolding e_def by (rule fl64_exact)
  next
    case False
    with e53 have e: "e = 53" by simp
    have "\<bar>real_of_int n\<bar> = 2 ^ 53"
      using b(1) \<open>\<bar>real_of_int n\<bar> \<le> 2 ^ 53\<close> unfolding e by simp
    then have "\<bar>n\<bar> = 2 ^ 53"
      by (metis of_int_abs of_int_eq_iff of_int_numeral of_int_power)
    then have "n = 2 ^ 53 \<or> n = - (2 ^ 53)" by (simp add: abs_if split: if_splits)
    then have "n = 2 * (n div 2)" by auto
    then have "real_of_int n / 2 powi (e - 52) = of_int (n div 2)"
      unfolding e by (simp; metis of_int_mult of_int_numeral)
    then show ?thesis unfolding e_def by (rule fl64_exact)
  qed
qed

lemma dbl_exact: "\<bar>n\<bar> \<le> 2 ^ 53 \<Longrightarrow> dbl n = n"
  by (simp add: dbl_def fl64_of_int)

lemma roundtrip_cents:
  assumes "\<bar>n\<bar> < 2 ^ 51"
  shows "Math_round (fl64 (fl64 (of_int n / 100) * 100)) = n"
proof -
  define x :: real where "x = of_int n"
  define q where "q = fl64 (x / 100)"
  define p where "p = fl64 (q * 100)"
  have "\<bar>n\<bar> \<le> 2 ^ 51 - 1" using assms by simp
  then have "real_of_int \<bar>n\<bar> \<le> of_int (2 ^ 51 - 1)" by (simp only: of_int_le_iff)
  then have xb: "\<bar>x\<bar> \<le> 2 ^ 51 - 1" by (simp add: x_def)
  have "\<bar>q - x / 100\<bar> \<le> \<bar>x / 100\<bar> / 2 ^ 53" unfolding q_def by (rule fl64_error)
  then have 1: "\<bar>q * 100 - x\<bar> \<le> \<bar>x\<bar> / 2 ^ 53" by (simp add: abs_if split: if_splits)
  have 2: "\<bar>p - q * 100\<bar> \<le> \<bar>q * 100\<bar> / 2 ^ 53" unfolding p_def by (rule fl64_error)
  have "\<bar>q * 100\<bar> \<le> \<bar>x\<bar> + \<bar>x\<bar> / 2 ^ 53" using 1 by linarith
  then have "\<bar>q * 100\<bar> / 2 ^ 53 \<le> (\<bar>x\<bar> + \<bar>x\<bar> / 2 ^ 53) / 2 ^ 53"
    by (intro divide_right_mono) simp_all
  with 1 2 have "\<bar>p - x\<bar> \<le> \<bar>x\<bar> / 2 ^ 53 + (\<bar>x\<bar> + \<bar>x\<bar> / 2 ^ 53) / 2 ^ 53" by linarith
  also have "\<dots> = \<bar>x\<bar> * (2 / 2 ^ 53 + 1 / 2 ^ 106)" by (simp add: field_simps)
  also have "\<dots> \<le> (2 ^ 51 - 1) * (2 / 2 ^ 53 + 1 / 2 ^ 106)"
    using xb by (intro mult_right_mono) simp_all
  also have "\<dots> < 1 / 2" by simp
  finally have "\<bar>p - x\<bar> < 1 / 2" .
  then have "of_int n \<le> p + 1 / 2" "p + 1 / 2 < of_int n + 1"
    unfolding x_def by linarith+
  then have "\<lfloor>p + 1 / 2\<rfloor> = n" by (intro floor_unique)
  then show ?thesis by (simp add: Math_round_def p_def q_def x_def)
qed

lemma dollarsToCents_of_cents:
  "\<bar>n\<bar> < 2 ^ 51 \<Longrightarrow> dollarsToCents (fl64 (of_int n / 100)) = n"
  by (simp add: dollarsToCents_def roundtrip_cents)

text \<open>Evaluation at numerals.\<close>

lemma fl64_numeral:
  "(numeral k :: int) \<le> 2 ^ 53 \<Longrightarrow> fl64 (numeral k) = numeral k"
  using fl64_of_int [of "numeral k"] by simp

lemma fl64_neg_numeral:
  "(numeral k :: int) \<le> 2 ^ 53 \<Longrightarrow> fl64 (- numeral k) = - numeral k"
  using fl64_of_int [of "- numeral k"] by simp

lemma Math_round_numeral [simp]:
  "Math_round (numeral k) = numeral k" "Math_round (- numeral k) = - numeral k"
  "Math_round 0 = 0"
  by (simp_all add: Math_round_def)

lemma dollarsToCents_0 [simp]: "dollarsToCents 0 = 0"
  by (simp add: dollarsToCents_def)

text \<open>The first integers that are not doubles round to their even neighbours.\<close>

lemma dbl_above_exact_range:
  "dbl 9007199254740993 = 9007199254740992"
  "dbl (- 9007199254740993) = - 9007199254740992"
proof -
  have "fl64 9007199254740993 = 9007199254740992"
    by (subst fl64_eval [of 53]) (simp_all add: rne_def)
  then show "dbl 9007199254740993 = 9007199254740992" by (simp add: dbl_def)
  have "fl64 (- 9007199254740993) = - 9007199254740992"
    by (subst fl64_eval [of 53]) (simp_all add: rne_def)
  then show "dbl (- 9007199254740993) = - 9007199254740992" by (simp add: dbl_def)
qed

text \<open>
  Two conversions in which the rounding shows: the double nearest to 1.005 times 100 is
  just below 100.5, and for 9007199254740990 cents the quotient by 100 times 100 rounds to
  the next integer.
\<close>

lemma dollarsToCents_rounding_examples:
  "dollarsToCents (fl64 (1005 / 1000)) = 100"
  "dollarsToCents (fl64 (9007199254740990 / 100)) = 9007199254740991"
proof -
  have 1: "fl64 (1005 / 1000) = 4526117625507348 / 2 ^ 52"
    by (subst fl64_eval [of 0]) (simp_all add: rne_def)
  have 2: "fl64 (4526117625507348 / 2 ^ 52 * 100) = 7072058789855231 / 2 ^ 46"
    by (subst fl64_eval [of 6]) (simp_all add: rne_def)
  show "dollarsToCents (fl64 (1005 / 1000)) = 100"
    unfolding dollarsToCents_def 1 2 by (simp add: Math_round_def)
  have 3: "fl64 (9007199254740990 / 100) = 5764607523034234 / 2 ^ 6"
    by (subst fl64_eval [of 46]) (simp_all add: rne_def)
  have 4: "fl64 (5764607523034234 / 2 ^ 6 * 100) = 9007199254740991"
    by (subst fl64_eval [of 52]) (simp_all add: rne_def)
  show "dollarsToCents (fl64 (9007199254740990 / 100)) = 9007199254740991"
    unfolding dollarsToCents_def 3 4 by (simp add: Math_round_def)
qed

lemmas double_eval = fl64_numeral fl64_neg_numeral dbl_exact

section \<open>Facts about references\<close>

lemma findIndex_Some_iff:
  "findIndex P xs = Some k \<longleftrightarrow> k < length xs \<and> P (xs ! k) \<and> (\<forall>j<k. \<not> P (xs ! j))"
proof (induction xs arbitrary: k)
  case Nil
  then show ?case by simp
next
  case (Cons x xs)
  show ?case
  proof (cases "P x")
    case True
    then show ?thesis by (cases k) auto
  next
    case False
    show ?thesis
    proof (cases k)
      case 0
      with False show ?thesis by simp
    next
      case (Suc m)
      have "(\<forall>j<Suc m. \<not> P ((x # xs) ! j)) \<longleftrightarrow> (\<forall>j<m. \<not> P (xs ! j))"
        using False by (auto simp: less_Suc_eq_0_disj)
      with False Suc Cons.IH [of m] show ?thesis by auto
    qed
  qed
qed

lemma findIndex_None_iff: "findIndex P xs = None \<longleftrightarrow> (\<forall>x\<in>set xs. \<not> P x)"
  by (induction xs) auto

lemma findIndex_cong_map:
  "map f xs = map f ys \<Longrightarrow> findIndex (\<lambda>e. Q (f e)) xs = findIndex (\<lambda>e. Q (f e)) ys"
proof (induction xs arbitrary: ys)
  case Nil
  then show ?case by simp
next
  case (Cons x xs)
  then obtain y ys' where ys: "ys = y # ys'" "f x = f y" "map f xs = map f ys'"
    by (cases ys) auto
  with Cons.IH [of ys'] show ?case by simp
qed

lemma length_modify [simp]: "length (modify k f xs) = length xs"
  by (simp add: modify_def)

lemma nth_modify:
  "j < length xs \<Longrightarrow> modify k f xs ! j = (if j = k then f (xs ! j) else xs ! j)"
  by (simp add: modify_def)

lemma map_modify_same:
  "g (f (xs ! k)) = g (xs ! k) \<Longrightarrow> map g (modify k f xs) = map g xs"
proof (cases "k < length xs")
  case True
  assume g: "g (f (xs ! k)) = g (xs ! k)"
  from True have "(map g xs)[k := g (xs ! k)] = map g xs"
    using list_update_id [of "map g xs" k] by simp
  with g show ?thesis by (simp add: modify_def map_update)
next
  case False
  then have "xs[k := f (xs ! k)] = xs" by (intro list_update_beyond) simp
  then show ?thesis by (simp add: modify_def)
qed

lemma resolve_cong:
  "map id_env xs = map id_env ys \<Longrightarrow> resolve xs r = resolve ys r"
  unfolding resolve_def
  using findIndex_cong_map [of id_env xs ys]
  by (auto split: option.splits)

lemma resolve_less: "resolve envs r = Some k \<Longrightarrow> k < length envs"
  by (auto simp: resolve_def findIndex_Some_iff split: option.splits if_splits)

section \<open>The effect of a transaction, envelope by envelope\<close>

lemma length_applyTransactionToBalances [simp]:
  "length (applyTransactionToBalances tx d envs) = length envs"
  by (simp add: applyTransactionToBalances_def Let_def split: option.splits)

lemma map_id_modify_balance [simp]:
  "map id_env (modify k (\<lambda>e. e\<lparr>balanceCents := h e\<rparr>) envs) = map id_env envs"
  by (rule map_modify_same) simp

lemma map_id_applyTransactionToBalances [simp]:
  "map id_env (applyTransactionToBalances tx d envs) = map id_env envs"
  by (simp add: applyTransactionToBalances_def Let_def split: option.splits)

lemma nth_applyTransactionToBalances:
  assumes "j < length envs"
  shows "applyTransactionToBalances tx d envs ! j =
         (envs ! j)\<lparr>balanceCents := balance_after envs tx d j\<rparr>"
proof -
  let ?f = "\<lambda>e. e\<lparr>balanceCents := dbl (balanceCents e - dbl (d * amountCents tx))\<rparr>"
  let ?envs1 = "case resolve envs (fromEnvelopeId tx) of None \<Rightarrow> envs | Some k \<Rightarrow> modify k ?f envs"
  have ids: "map id_env ?envs1 = map id_env envs"
    by (simp split: option.splits)
  have r: "resolve ?envs1 (toEnvelopeId tx) = resolve envs (toEnvelopeId tx)"
    by (rule resolve_cong [OF ids])
  have len: "length ?envs1 = length envs"
    by (simp split: option.splits)
  have n1: "?envs1 ! j = (if resolve envs (fromEnvelopeId tx) = Some j then ?f (envs ! j) else envs ! j)"
    using assms by (auto simp: nth_modify split: option.splits)
  show ?thesis
    unfolding applyTransactionToBalances_def Let_def r
    using assms len n1
    by (cases "resolve envs (toEnvelopeId tx)")
       (auto simp: nth_modify balance_after_def Let_def)
qed

lemma delta_applyTransactionToBalances [simp]:
  "delta (applyTransactionToBalances tx d envs) tx' j = delta envs tx' j"
  unfolding delta_def
  using resolve_cong [OF map_id_applyTransactionToBalances]
  by simp

lemma exact_rangeD:
  assumes "exact_range envs tx" "j < length envs" "refers envs tx j"
  shows "\<bar>balanceCents (envs ! j)\<bar> + \<bar>amountCents tx\<bar> \<le> 2 ^ 53"
proof -
  have "fromEnvelopeId tx = Some (id_env (envs ! j)) \<or> toEnvelopeId tx = Some (id_env (envs ! j))"
    using assms(3)
    by (auto simp: refers_def resolve_def findIndex_Some_iff split: option.splits if_splits)
  moreover have "envs ! j \<in> set envs" using assms(2) by simp
  ultimately show ?thesis using assms(1) by (auto simp: exact_range_def)
qed

lemma dbl_in_range:
  assumes "\<bar>b\<bar> + \<bar>a\<bar> \<le> 2 ^ 53"
  shows "dbl a = a" "dbl (- a) = - a" "dbl b = b" "dbl (b + a) = b + a" "dbl (b - a) = b - a"
  using assms by (simp_all add: dbl_exact)

text \<open>Within the exact range a transaction changes a balance by \<open>delta\<close>, without rounding.\<close>

lemma balance_after_exact:
  assumes "refers envs tx j \<longrightarrow> \<bar>balanceCents (envs ! j)\<bar> + \<bar>amountCents tx\<bar> \<le> 2 ^ 53"
    and "d = 1 \<or> d = - 1"
  shows "balance_after envs tx d j = balanceCents (envs ! j) + d * delta envs tx j"
proof (cases "refers envs tx j")
  case False
  then show ?thesis by (simp add: balance_after_def delta_def refers_def)
next
  case True
  note f = dbl_in_range [OF assms(1) [rule_format, OF True]]
  from assms(2) show ?thesis
    by (auto simp: balance_after_def delta_def Let_def f)
qed

text \<open>
  The balance after applying and then rolling back, computed from the balance before.
\<close>

lemma balance_after_rollback:
  assumes "refers envs tx j \<longrightarrow> \<bar>balanceCents (envs ! j)\<bar> + \<bar>amountCents tx\<bar> \<le> 2 ^ 53"
    and "j < length envs"
  shows "balance_after (applyTransactionToBalances tx 1 envs) tx (- 1) j = balanceCents (envs ! j)"
proof -
  let ?envs1 = "applyTransactionToBalances tx 1 envs"
  have r: "resolve ?envs1 r' = resolve envs r'" for r'
    by (rule resolve_cong) simp
  have b1: "balanceCents (?envs1 ! j) = balance_after envs tx 1 j"
    using assms(2) by (simp add: nth_applyTransactionToBalances)
  show ?thesis
  proof (cases "refers envs tx j")
    case False
    then show ?thesis by (simp add: balance_after_def r b1 refers_def)
  next
    case True
    note f = dbl_in_range [OF assms(1) [rule_format, OF True]]
    show ?thesis
      unfolding balance_after_def [of ?envs1] r b1 Let_def
      by (auto simp: balance_after_def Let_def f)
  qed
qed

section \<open>Rollback exactness\<close>

text \<open>
  Claim C1, as the code has it. Let every envelope whose id the transaction names have
  \<open>|balanceCents| + |amountCents| \<le> 2^53\<close>. Then applying the transaction with
  direction \<open>+1\<close> and then with direction \<open>-1\<close> gives back the envelopes exactly as they
  were: every balance has its prior integer value, whether each of the two references
  resolves or not (no hypothesis on the references or on the envelope ids).
\<close>

theorem rollback_exactness:
  assumes "exact_range envs tx"
  shows "applyTransactionToBalances tx (-1) (applyTransactionToBalances tx 1 envs) = envs"
proof (rule nth_equalityI)
  show "length (applyTransactionToBalances tx (-1) (applyTransactionToBalances tx 1 envs)) = length envs"
    by simp
next
  fix j
  assume "j < length (applyTransactionToBalances tx (-1) (applyTransactionToBalances tx 1 envs))"
  then have j: "j < length envs" by simp
  have "refers envs tx j \<longrightarrow> \<bar>balanceCents (envs ! j)\<bar> + \<bar>amountCents tx\<bar> \<le> 2 ^ 53"
    using exact_rangeD [OF assms j] by simp
  then have "balance_after (applyTransactionToBalances tx 1 envs) tx (- 1) j = balanceCents (envs ! j)"
    using j by (rule balance_after_rollback)
  then show "applyTransactionToBalances tx (-1) (applyTransactionToBalances tx 1 envs) ! j = envs ! j"
    using j by (simp add: nth_applyTransactionToBalances)
qed

section \<open>Evaluation of the example states\<close>

lemmas eval_defs =
  State_def ensureCoreEnvelopes_def ensureCore_def indices_def forEach_def income_new_def
  overflow_new_def Envelope_def truthy_def not_false_def modify_def addTransaction_def
  dollarsToCents_def Transaction_def or_null_def applyTransactionToBalances_def resolve_def
  addEnvelope_def getIncomeEnvelope_def isTarget_def isCoreEnvelope_def Let_def upt_rec
  no_flags_def double_eval

section \<open>Retention pruning\<close>

text \<open>
  Claim C7, as the code has it. \<open>pruneOldTransactions\<close> removes exactly the transactions
  whose timestamp is lexicographically strictly earlier than the cutoff string, and leaves
  the envelopes (so every balance) as they are; the cutoff is taken
  \<open>transactionRetentionDays\<close> days back when that setting is present and not \<open>0\<close>, and
  45 days back when it is absent or \<open>0\<close>.
\<close>

theorem prune_removes_exactly:
  "transactions (pruneOldTransactions cutoffISO s) =
     filter (\<lambda>tx. \<not> timestamp tx <
                    cutoffISO (case transactionRetentionDays (settings s) of
                                 None \<Rightarrow> 45
                               | Some d \<Rightarrow> if d = 0 then 45 else d))
       (transactions s)
   \<and> envelopes (pruneOldTransactions cutoffISO s) = envelopes s"
  by (simp add: pruneOldTransactions_def retentionDays_def not_less)

text \<open>
  With the setting at \<open>0\<close> days the cutoff of the claim is the present instant, and the
  transaction of 20 October is strictly earlier; the code keeps it.
\<close>

theorem prune_zero_retention_counterexample:
  "transactionRetentionDays (settings zero_retention_state) = Some 0 \<and>
   timestamp tx_october < clock_example 0 \<and>
   transactions (pruneOldTransactions clock_example zero_retention_state) = [tx_october]"
  by (simp add: zero_retention_state_def tx_october_def clock_example_def
        pruneOldTransactions_def retentionDays_def Transaction_def or_null_def
        ensureCoreEnvelopes_def State_def)

section \<open>Garbage collection of envelopes\<close>

lemma add_ref_eq: "add_ref r used = used \<union> {i. r = Some i \<and> i \<noteq> []}"
  by (auto simp: add_ref_def split: option.splits)

lemma fold_add_refs:
  "fold (\<lambda>tx used. add_ref (toEnvelopeId tx) (add_ref (fromEnvelopeId tx) used)) txs U =
   U \<union> {i. i \<noteq> [] \<and> (\<exists>tx\<in>set txs. fromEnvelopeId tx = Some i \<or> toEnvelopeId tx = Some i)}"
  by (induction txs arbitrary: U) (auto simp: add_ref_eq)

lemma usedIds_eq:
  "usedIds txs =
     {i. i \<noteq> [] \<and> (\<exists>tx\<in>set txs. fromEnvelopeId tx = Some i \<or> toEnvelopeId tx = Some i)}"
  by (simp add: usedIds_def fold_add_refs)

lemma constructed_ref:
  "constructed tx \<Longrightarrow> fromEnvelopeId tx \<noteq> Some [] \<and> toEnvelopeId tx \<noteq> Some []"
  by (auto simp: constructed_def or_null_def split: option.splits if_splits)

lemma constructed_Transaction [simp]: "constructed (Transaction i ts fr to a n)"
  by (auto simp: constructed_def Transaction_def or_null_def split: option.splits)

lemma keep_removable:
  assumes "\<forall>tx\<in>set txs. constructed tx"
  shows "keep (usedIds txs) env \<longleftrightarrow> \<not> removable txs env"
proof -
  have "id_env env \<in> usedIds txs \<longleftrightarrow>
        (\<exists>tx\<in>set txs. fromEnvelopeId tx = Some (id_env env) \<or> toEnvelopeId tx = Some (id_env env))"
    using assms constructed_ref by (fastforce simp: usedIds_eq)
  then show ?thesis by (auto simp: keep_def removable_def)
qed

text \<open>
  Claim C8. On a state whose transactions are as the \<open>Transaction\<close> constructor builds
  them, \<open>cleanupUnusedEnvelopes\<close> removes exactly the envelopes that are not core, inactive,
  of zero balance and referenced by no transaction (as \<open>fromEnvelopeId\<close> or
  \<open>toEnvelopeId\<close>); every other envelope (core, active, nonzero balance or still
  referenced) stays, in its place, and the transactions are untouched.
\<close>

theorem cleanup_removes_exactly:
  assumes "\<forall>tx\<in>set (transactions s). constructed tx"
  shows "envelopes (cleanupUnusedEnvelopes s) =
           filter (\<lambda>env. \<not> removable (transactions s) env) (envelopes s)
         \<and> transactions (cleanupUnusedEnvelopes s) = transactions s"
proof -
  have "keep (usedIds (transactions s)) = (\<lambda>env. \<not> removable (transactions s) env)"
    using keep_removable [OF assms] by (intro ext) simp
  then show ?thesis by (simp add: cleanupUnusedEnvelopes_def)
qed

section \<open>Repair of the core envelopes\<close>

lemma set_indices: "set (indices P xs) = {k. k < length xs \<and> P (xs ! k)}"
  by (auto simp: indices_def)

lemma distinct_indices: "distinct (indices P xs)"
  by (simp add: indices_def)

lemma length_indices: "length (indices P xs) = length (filter P xs)"
  using distinct_card [OF distinct_indices, of P xs]
  by (simp add: set_indices length_filter_conv_card)

lemma length_forEach [simp]: "length (forEach ks f xs) = length xs"
  unfolding forEach_def by (induction ks arbitrary: xs) simp_all

lemma nth_forEach:
  "distinct ks \<Longrightarrow> j < length xs \<Longrightarrow>
   forEach ks f xs ! j = (if j \<in> set ks then f (xs ! j) else xs ! j)"
proof (induction ks arbitrary: xs)
  case Nil
  then show ?case by (simp add: forEach_def)
next
  case (Cons k ks)
  have "forEach (k # ks) f xs = forEach ks f (modify k f xs)"
    by (simp add: forEach_def)
  with Cons show ?case by (auto simp: nth_modify)
qed

lemma count_le_1_unique:
  assumes "length (filter P xs) \<le> 1" "j < length xs" "k < length xs" "P (xs ! j)" "P (xs ! k)"
  shows "j = k"
proof -
  let ?S = "{i. i < length xs \<and> P (xs ! i)}"
  have "finite ?S" by simp
  moreover have "card ?S \<le> 1" using assms(1) by (simp add: length_filter_conv_card)
  moreover have "j \<in> ?S" "k \<in> ?S" using assms by auto
  ultimately show ?thesis using card_le_Suc0_iff_eq [of ?S] by auto
qed

lemma count_cong: "map P xs = map P ys \<Longrightarrow> length (filter P xs) = length (filter P ys)"
proof (induction xs arbitrary: ys)
  case Nil
  then show ?case by simp
next
  case (Cons x xs)
  then obtain y ys' where "ys = y # ys'" "P x = P y" "map P xs = map P ys'"
    by (cases ys) auto
  with Cons.IH [of ys'] show ?case by simp
qed

lemma demote_skip:
  "(if length I > 1 then forEach (drop 1 I) f xs else xs) = forEach (drop 1 I) f xs"
  by (cases I) (auto simp: forEach_def)

lemma indices_cong:
  assumes "map P xs = map P ys"
  shows "indices P xs = indices P ys"
proof -
  have l: "length xs = length ys" using assms by (rule map_eq_imp_length_eq)
  have "P (xs ! k) = P (ys ! k)" if "k < length xs" for k
    using that l nth_map [of k xs P] nth_map [of k ys P] assms by simp
  then show ?thesis unfolding indices_def l [symmetric] by (intro filter_cong) auto
qed

lemma demote_count:
  assumes "\<And>e. P (f e) = False"
  shows "length (filter P (forEach (drop 1 (indices P xs)) f xs)) \<le> 1"
proof -
  let ?I = "indices P xs"
  let ?ys = "forEach (drop 1 ?I) f xs"
  have d: "distinct (drop 1 ?I)" using distinct_indices by (rule distinct_drop)
  have "{i. i < length ?ys \<and> P (?ys ! i)} \<subseteq> set (take 1 ?I)"
  proof
    fix i assume "i \<in> {i. i < length ?ys \<and> P (?ys ! i)}"
    then have i: "i < length xs" "P (?ys ! i)" by auto
    have "?ys ! i = (if i \<in> set (drop 1 ?I) then f (xs ! i) else xs ! i)"
      by (rule nth_forEach [OF d i(1)])
    with i(2) assms have n: "i \<notin> set (drop 1 ?I)" "P (xs ! i)"
      by (auto split: if_splits)
    with i have "i \<in> set ?I" by (simp add: set_indices)
    then have "i \<in> set (take 1 ?I) \<union> set (drop 1 ?I)"
      by (metis append_take_drop_id set_append)
    with n show "i \<in> set (take 1 ?I)" by simp
  qed
  then have "card {i. i < length ?ys \<and> P (?ys ! i)} \<le> card (set (take 1 ?I))"
    by (intro card_mono) auto
  also have "\<dots> \<le> length (take 1 ?I)" by (rule card_length)
  also have "\<dots> \<le> 1" by simp
  finally show ?thesis by (simp add: length_filter_conv_card)
qed

lemma map_forEach_same:
  assumes "\<And>e. g (f e) = g e"
  shows "map g (forEach ks f xs) = map g xs"
  unfolding forEach_def
  by (induction ks arbitrary: xs) (simp_all add: map_modify_same assms)

lemma set_modify: "e \<in> set (modify i g xs) \<Longrightarrow> e \<in> set xs \<or> (i < length xs \<and> e = g (xs ! i))"
proof (cases "i < length xs")
  case True
  assume "e \<in> set (modify i g xs)"
  with True show ?thesis
    unfolding modify_def using set_update_subset_insert [of xs i "g (xs ! i)"] by auto
next
  case False
  then have "xs[i := g (xs ! i)] = xs" by (intro list_update_beyond) simp
  moreover assume "e \<in> set (modify i g xs)"
  ultimately show ?thesis by (simp add: modify_def)
qed

lemma fix_count:
  assumes "length (filter P xs) \<le> 1" "P new" "\<And>e. P (g e) = P e"
  shows "length (filter P (case findIndex P xs of None \<Rightarrow> xs @ [new]
                           | Some i \<Rightarrow> modify i g xs)) = 1"
proof (cases "findIndex P xs")
  case None
  then have "filter P xs = []" by (simp add: findIndex_None_iff filter_empty_conv)
  with None assms(2) show ?thesis by simp
next
  case (Some i)
  then have i: "i < length xs" "P (xs ! i)" by (simp_all add: findIndex_Some_iff)
  have "map P (modify i g xs) = map P xs" by (rule map_modify_same) (simp add: assms)
  then have "length (filter P (modify i g xs)) = length (filter P xs)" by (rule count_cong)
  moreover have "xs ! i \<in> set (filter P xs)" using i by simp
  then have "length (filter P xs) \<noteq> 0" by (cases "filter P xs") auto
  ultimately show ?thesis using Some assms(1) by (simp add: le_Suc_eq)
qed

lemma fix_good:
  assumes "length (filter P xs) \<le> 1" "good new" "\<And>e. good (g e)"
  shows "\<forall>e\<in>set (case findIndex P xs of None \<Rightarrow> xs @ [new] | Some i \<Rightarrow> modify i g xs).
           P e \<longrightarrow> good e"
proof (cases "findIndex P xs")
  case None
  then have "\<forall>x\<in>set xs. \<not> P x" by (simp add: findIndex_None_iff)
  with None assms(2) show ?thesis by auto
next
  case (Some i)
  then have i: "i < length xs" "P (xs ! i)" by (simp_all add: findIndex_Some_iff)
  have "good e" if "e \<in> set (modify i g xs)" "P e" for e
  proof -
    from that(1) have "\<exists>j<length (modify i g xs). modify i g xs ! j = e"
      by (simp only: in_set_conv_nth)
    then obtain j where j: "j < length xs" "modify i g xs ! j = e"
      by auto
    show ?thesis
    proof (cases "j = i")
      case True
      with j assms(3) show ?thesis by (auto simp: nth_modify)
    next
      case False
      with j have "e = xs ! j" by (simp add: nth_modify)
      with that(2) count_le_1_unique [OF assms(1) j(1) i(1) _ i(2)] False
      show ?thesis by simp
    qed
  qed
  with Some show ?thesis by simp
qed

lemma fix_other_count:
  assumes "\<not> Q new" "\<And>e. Q (g e) = Q e"
  shows "length (filter Q (case findIndex P xs of None \<Rightarrow> xs @ [new]
                           | Some i \<Rightarrow> modify i g xs)) = length (filter Q xs)"
proof (cases "findIndex P xs")
  case None
  with assms(1) show ?thesis by simp
next
  case (Some i)
  have "map Q (modify i g xs) = map Q xs" by (rule map_modify_same) (simp add: assms)
  then have "length (filter Q (modify i g xs)) = length (filter Q xs)" by (rule count_cong)
  with Some show ?thesis by simp
qed

lemma fix_other_good:
  assumes "\<forall>e\<in>set xs. Q e \<longrightarrow> good e" "good new" "\<And>e. good (g e)"
  shows "\<forall>e\<in>set (case findIndex P xs of None \<Rightarrow> xs @ [new] | Some i \<Rightarrow> modify i g xs).
           Q e \<longrightarrow> good e"
proof (cases "findIndex P xs")
  case None
  with assms(1,2) show ?thesis by auto
next
  case (Some i)
  have "good e" if "e \<in> set (modify i g xs)" "Q e" for e
    using set_modify [OF that(1)] that(2) assms(1,3) by auto
  with Some show ?thesis by simp
qed

lemma ensureCore_invariant: "core_invariant (ensureCore envs)"
proof -
  let ?g = "\<lambda>e. e\<lparr>targetCents := 0, isActive := True\<rparr>"
  let ?good = "\<lambda>e. isActive e \<and> targetCents e = 0"
  define envs1 where "envs1 = forEach (drop 1 (indices isIncome envs)) (\<lambda>e. e\<lparr>isIncome := False\<rparr>) envs"
  define envs2 where "envs2 = forEach (drop 1 (indices isOverflow envs)) (\<lambda>e. e\<lparr>isOverflow := False\<rparr>) envs1"
  define envs3 where "envs3 = (case findIndex isIncome envs2 of None \<Rightarrow> envs2 @ [income_new]
                               | Some i \<Rightarrow> modify i ?g envs2)"
  define envs4 where "envs4 = (case findIndex isOverflow envs3 of None \<Rightarrow> envs3 @ [overflow_new]
                               | Some i \<Rightarrow> modify i ?g envs3)"
  have e: "ensureCore envs = envs4"
    unfolding ensureCore_def Let_def demote_skip envs1_def envs2_def envs3_def envs4_def ..
  have i1: "length (filter isIncome envs1) \<le> 1"
    unfolding envs1_def by (rule demote_count) simp
  have "map isOverflow envs1 = map isOverflow envs"
    unfolding envs1_def by (rule map_forEach_same) simp
  then have "indices isOverflow envs = indices isOverflow envs1"
    by (rule indices_cong [symmetric])
  then have o2: "length (filter isOverflow envs2) \<le> 1"
    unfolding envs2_def
    using demote_count [of isOverflow "\<lambda>e. e\<lparr>isOverflow := False\<rparr>" envs1] by simp
  have "map isIncome envs2 = map isIncome envs1"
    unfolding envs2_def by (rule map_forEach_same) simp
  with i1 have i2: "length (filter isIncome envs2) \<le> 1"
    using count_cong [of isIncome envs2 envs1] by simp
  have i3: "length (filter isIncome envs3) = 1"
    unfolding envs3_def by (rule fix_count [OF i2]) (simp_all add: income_new_def Envelope_def truthy_def)
  have o3: "length (filter isOverflow envs3) \<le> 1"
    unfolding envs3_def using o2
    by (simp add: fix_other_count income_new_def Envelope_def truthy_def)
  have g3: "\<forall>e\<in>set envs3. isIncome e \<longrightarrow> ?good e"
    unfolding envs3_def
    by (rule fix_good [OF i2]) (simp_all add: income_new_def Envelope_def not_false_def)
  have o4: "length (filter isOverflow envs4) = 1"
    unfolding envs4_def by (rule fix_count [OF o3]) (simp_all add: overflow_new_def Envelope_def truthy_def)
  have i4: "length (filter isIncome envs4) = 1"
    unfolding envs4_def using i3
    by (simp add: fix_other_count overflow_new_def Envelope_def truthy_def)
  have g4: "\<forall>e\<in>set envs4. isOverflow e \<longrightarrow> ?good e"
    unfolding envs4_def
    by (rule fix_good [OF o3]) (simp_all add: overflow_new_def Envelope_def not_false_def)
  have g4': "\<forall>e\<in>set envs4. isIncome e \<longrightarrow> ?good e"
    unfolding envs4_def
    by (rule fix_other_good [OF g3]) (simp_all add: overflow_new_def Envelope_def not_false_def)
  show ?thesis
    unfolding e core_invariant_def isCoreEnvelope_def using i4 o4 g4 g4' by blast
qed

lemma ensureCore_fixpoint:
  assumes "core_invariant envs"
  shows "ensureCore envs = envs"
proof -
  let ?g = "\<lambda>e. e\<lparr>targetCents := 0, isActive := True\<rparr>"
  have c: "length (filter isIncome envs) = 1" "length (filter isOverflow envs) = 1"
    and good: "\<And>e. e \<in> set envs \<Longrightarrow> isCoreEnvelope e \<Longrightarrow> isActive e \<and> targetCents e = 0"
    using assms by (auto simp: core_invariant_def)
  have fixed: "(case findIndex P envs of None \<Rightarrow> envs @ [new] | Some i \<Rightarrow> modify i ?g envs) = envs"
    if "length (filter P envs) = 1" "\<And>e. P e \<Longrightarrow> isCoreEnvelope e" for P new
  proof (cases "findIndex P envs")
    case None
    then have "filter P envs = []" by (simp add: findIndex_None_iff filter_empty_conv)
    with that(1) show ?thesis by simp
  next
    case (Some i)
    then have i: "i < length envs" "P (envs ! i)" by (simp_all add: findIndex_Some_iff)
    then have "isActive (envs ! i) \<and> targetCents (envs ! i) = 0"
      using good [of "envs ! i"] that(2) by simp
    then have "?g (envs ! i) = envs ! i" by simp
    with Some show ?thesis by (simp add: modify_def)
  qed
  have "(if 1 < length (indices P envs) then forEach (drop 1 (indices P envs)) f xs else xs) = xs"
    if "length (filter P envs) = 1" for P f and xs :: "envelope list"
    using that by (simp add: length_indices)
  note skip = this [OF c(1)] this [OF c(2)]
  have f1: "(case findIndex isIncome envs of None \<Rightarrow> envs @ [income_new]
             | Some i \<Rightarrow> modify i ?g envs) = envs"
    by (rule fixed [OF c(1)]) (simp add: isCoreEnvelope_def)
  have f2: "(case findIndex isOverflow envs of None \<Rightarrow> envs @ [overflow_new]
             | Some i \<Rightarrow> modify i ?g envs) = envs"
    by (rule fixed [OF c(2)]) (simp add: isCoreEnvelope_def)
  show ?thesis
    unfolding ensureCore_def Let_def skip f1 f2 ..
qed

text \<open>
  Claim C9. \<open>ensureCoreEnvelopes\<close> is idempotent: from any state, a second run in
  sequence returns the state the first run produced.
\<close>

theorem ensureCoreEnvelopes_idempotent:
  "ensureCoreEnvelopes (ensureCoreEnvelopes s) = ensureCoreEnvelopes s"
  by (simp add: ensureCoreEnvelopes_def ensureCore_fixpoint [OF ensureCore_invariant])

section \<open>The scenario states, evaluated\<close>

lemma fresh_state_eq:
  "fresh_state = \<lparr>envelopes = [income_new, overflow_new], transactions = [],
     bankBalanceCents = 0, settings = \<lparr>transactionRetentionDays = Some 30\<rparr>\<rparr>"
  by (simp add: fresh_state_def eval_defs)

lemma groceries_state_eq:
  "groceries_state =
     \<lparr>envelopes = [income_new\<lparr>balanceCents := 10000\<rparr>, overflow_new,
        \<lparr>id_env = ''env_1'', name = ''Groceries'', targetCents = 5000, balanceCents = 0,
         isIncome = False, isOverflow = False, isCreditCard = False, isActive = True\<rparr>],
      transactions = [\<lparr>id_tx = ''tx_1'', timestamp = ''2026-11-01T09:00:00.000Z'',
         fromEnvelopeId = None, toEnvelopeId = Some ''env_income'', amountCents = 10000,
         note_tx = ''New Income''\<rparr>],
      bankBalanceCents = 0, settings = \<lparr>transactionRetentionDays = Some 30\<rparr>\<rparr>"
  by (simp add: groceries_state_def funded_state_def fresh_state_def eval_defs)

lemma allocated_state_eq:
  "allocated_state =
     \<lparr>envelopes = [income_new\<lparr>balanceCents := 5000\<rparr>, overflow_new,
        \<lparr>id_env = ''env_1'', name = ''Groceries'', targetCents = 5000, balanceCents = 5000,
         isIncome = False, isOverflow = False, isCreditCard = False, isActive = True\<rparr>],
      transactions = [\<lparr>id_tx = ''tx_1'', timestamp = ''2026-11-01T09:00:00.000Z'',
         fromEnvelopeId = None, toEnvelopeId = Some ''env_income'', amountCents = 10000,
         note_tx = ''New Income''\<rparr>],
      bankBalanceCents = 0, settings = \<lparr>transactionRetentionDays = Some 30\<rparr>\<rparr>"
  unfolding allocated_state_def groceries_state_eq
  by (simp add: autoAllocate_def eval_defs)

lemma overdrawn_state_eq:
  "overdrawn_state =
     \<lparr>envelopes = [income_new\<lparr>balanceCents := 10000\<rparr>, overflow_new,
        \<lparr>id_env = ''env_1'', name = ''Groceries'', targetCents = 5000, balanceCents = - 500,
         isIncome = False, isOverflow = False, isCreditCard = False, isActive = True\<rparr>],
      transactions = [\<lparr>id_tx = ''tx_1'', timestamp = ''2026-11-01T09:00:00.000Z'',
         fromEnvelopeId = None, toEnvelopeId = Some ''env_income'', amountCents = 10000,
         note_tx = ''New Income''\<rparr>,
        \<lparr>id_tx = ''tx_2'', timestamp = ''2026-11-01T12:00:00.000Z'',
         fromEnvelopeId = Some ''env_1'', toEnvelopeId = None, amountCents = 500,
         note_tx = ''Lunch''\<rparr>],
      bankBalanceCents = 0, settings = \<lparr>transactionRetentionDays = Some 30\<rparr>\<rparr>"
  unfolding overdrawn_state_def groceries_state_eq
  by (simp add: eval_defs)

section \<open>The core invariant under the public operations\<close>

lemma core_invariant_sig:
  "core_invariant xs \<longleftrightarrow>
     length (filter fst (map core_sig xs)) = 1 \<and>
     length (filter (\<lambda>t. fst (snd t)) (map core_sig xs)) = 1 \<and>
     (\<forall>t\<in>set (map core_sig xs). snd (snd t))"
  by (simp add: core_invariant_def core_sig_def filter_map o_def)

lemma core_invariant_cong:
  "map core_sig ys = map core_sig xs \<Longrightarrow> core_invariant xs \<Longrightarrow> core_invariant ys"
  by (simp add: core_invariant_sig)

lemma core_invariant_modify:
  assumes "core_invariant xs" "core_sig (f (xs ! k)) = core_sig (xs ! k)"
  shows "core_invariant (modify k f xs)"
  using map_modify_same [of core_sig f xs k, OF assms(2)] assms(1)
  by (rule core_invariant_cong)

lemma map_applyTransactionToBalances_same:
  assumes "\<And>e b. g (e\<lparr>balanceCents := b\<rparr>) = g e"
  shows "map g (applyTransactionToBalances tx d envs) = map g envs"
  by (rule nth_equalityI) (simp_all add: nth_applyTransactionToBalances assms)

lemma map_addTransaction_same:
  assumes "\<And>e b. g (e\<lparr>balanceCents := b\<rparr>) = g e"
  shows "map g (envelopes (addTransaction fr to d nt lg newId now s)) = map g (envelopes s)"
  by (simp add: addTransaction_def Let_def map_applyTransactionToBalances_same [of g, OF assms])

lemma map_fold_same:
  assumes "\<And>k s. map g (envelopes (step k s)) = map g (envelopes s)"
  shows "map g (envelopes (fold step ks s)) = map g (envelopes s)"
  by (induction ks arbitrary: s) (simp_all add: assms)

lemma map_autoAllocate_same:
  assumes "\<And>e b. g (e\<lparr>balanceCents := b\<rparr>) = g e"
  shows "map g (envelopes (autoAllocate ok newId now s)) = map g (envelopes s)"
proof -
  have "map g (envelopes (fold (\<lambda>k s'.
          addTransaction (Some (id_env (envelopes s' ! m))) (Some (id_env (envelopes s' ! k)))
            (fl64 (of_int (targetCents (envelopes s' ! k)) / 100)) ''Auto allocation'' False newId now s')
          ks s)) = map g (envelopes s)" for m ks
    by (rule map_fold_same) (rule map_addTransaction_same [OF assms])
  then show ?thesis
    by (simp add: autoAllocate_def Let_def split: option.splits)
qed

lemma core_sig_balance [simp]: "core_sig (e\<lparr>balanceCents := b\<rparr>) = core_sig e"
  by (simp add: core_sig_def isCoreEnvelope_def)

lemma core_sig_not_core:
  "\<not> isCoreEnvelope e \<Longrightarrow> isIncome e' = isIncome e \<Longrightarrow> isOverflow e' = isOverflow e \<Longrightarrow>
   core_sig e' = core_sig e"
  by (simp add: core_sig_def isCoreEnvelope_def)

lemma core_invariant_nth:
  "core_invariant xs \<Longrightarrow> k < length xs \<Longrightarrow> isCoreEnvelope (xs ! k) \<Longrightarrow>
   isActive (xs ! k) \<and> targetCents (xs ! k) = 0"
  by (simp add: core_invariant_def)

lemma core_invariant_reactivate:
  assumes "core_invariant envs"
  shows "core_invariant (reactivate r envs)"
proof (cases "resolve envs r")
  case None
  with assms show ?thesis by (simp add: reactivate_def)
next
  case (Some k)
  then have k: "k < length envs" by (rule resolve_less)
  show ?thesis
  proof (cases "isActive (envs ! k)")
    case True
    with Some assms show ?thesis by (simp add: reactivate_def)
  next
    case False
    with core_invariant_nth [OF assms k] have "\<not> isCoreEnvelope (envs ! k)" by blast
    then have "core_sig ((envs ! k)\<lparr>isActive := True\<rparr>) = core_sig (envs ! k)"
      by (intro core_sig_not_core) simp_all
    with assms have "core_invariant (modify k (\<lambda>e. e\<lparr>isActive := True\<rparr>) envs)"
      by (intro core_invariant_modify)
    with Some False show ?thesis by (simp add: reactivate_def)
  qed
qed

lemma core_invariant_applyTransactionToBalances:
  assumes "core_invariant envs"
  shows "core_invariant (applyTransactionToBalances tx d envs)"
proof -
  have "map core_sig (applyTransactionToBalances tx d envs) = map core_sig envs"
    by (rule map_applyTransactionToBalances_same) simp
  then show ?thesis using assms by (rule core_invariant_cong)
qed

lemma core_invariant_addTransaction:
  assumes "core_invariant (envelopes s)"
  shows "core_invariant (envelopes (addTransaction fr to d nt lg newId now s))"
proof -
  have "map core_sig (envelopes (addTransaction fr to d nt lg newId now s)) =
        map core_sig (envelopes s)"
    by (rule map_addTransaction_same) simp
  then show ?thesis using assms by (rule core_invariant_cong)
qed

lemma core_invariant_updateTransaction:
  assumes "core_invariant (envelopes s)"
  shows "core_invariant (envelopes (updateTransaction i updates s))"
proof (cases "findIndex (\<lambda>t. id_tx t = i) (transactions s)")
  case None
  with assms show ?thesis by (simp add: updateTransaction_def)
next
  case (Some n)
  have "map core_sig (envelopes (updateTransaction i updates s)) = map core_sig (envelopes s)"
    using Some by (simp add: updateTransaction_def Let_def map_applyTransactionToBalances_same)
  then show ?thesis using assms by (rule core_invariant_cong)
qed

lemma core_invariant_deleteTransaction:
  assumes "core_invariant (envelopes s)"
  shows "core_invariant (envelopes (deleteTransaction i s))"
proof (cases "findIndex (\<lambda>t. id_tx t = i) (transactions s)")
  case None
  with assms show ?thesis by (simp add: deleteTransaction_def)
next
  case (Some n)
  let ?tx = "transactions s ! n"
  let ?envs1 = "reactivate (toEnvelopeId ?tx) (reactivate (fromEnvelopeId ?tx) (envelopes s))"
  have "core_invariant ?envs1" by (intro core_invariant_reactivate assms)
  then have "core_invariant (applyTransactionToBalances ?tx (-1) ?envs1)"
    by (rule core_invariant_applyTransactionToBalances)
  with Some show ?thesis by (simp add: deleteTransaction_def Let_def)
qed

lemma core_invariant_deactivate:
  assumes "core_invariant envs" "\<not> isCoreEnvelope (envs ! k)"
  shows "core_invariant (modify k (\<lambda>e. e\<lparr>isActive := False\<rparr>) envs)"
  using assms(1)
  by (rule core_invariant_modify) (rule core_sig_not_core [OF assms(2)], simp_all)

lemma core_invariant_deleteEnvelope:
  assumes "core_invariant (envelopes s)"
  shows "core_invariant (envelopes (deleteEnvelope i ok newId now s))"
proof (cases "findIndex (\<lambda>e. id_env e = i) (envelopes s)")
  case None
  with assms show ?thesis by (simp add: deleteEnvelope_def)
next
  case (Some k)
  show ?thesis
  proof (cases "isCoreEnvelope (envelopes s ! k)")
    case True
    with Some assms show ?thesis by (simp add: deleteEnvelope_def)
  next
    case False
    let ?s1 = "addTransaction (Some (id_env (envelopes s ! k)))
                 (Some (id_env (envelopes s ! the (getIncomeEnvelope s))))
                 (fl64 (of_int (balanceCents (envelopes s ! k)) / 100))
                 (merge_note (name (envelopes s ! k))) True newId now s"
    have a: "core_invariant (modify k (\<lambda>e. e\<lparr>isActive := False\<rparr>) (envelopes s))"
      using assms False by (rule core_invariant_deactivate)
    have "map isCoreEnvelope (envelopes ?s1) = map isCoreEnvelope (envelopes s)"
      by (rule map_addTransaction_same) (simp add: isCoreEnvelope_def)
    moreover have "k < length (envelopes s)" using Some by (simp add: findIndex_Some_iff)
    ultimately have "isCoreEnvelope (envelopes ?s1 ! k) = isCoreEnvelope (envelopes s ! k)"
      by (metis length_map nth_map)
    with False have "core_invariant (modify k (\<lambda>e. e\<lparr>isActive := False\<rparr>) (envelopes ?s1))"
      by (intro core_invariant_deactivate core_invariant_addTransaction assms) simp
    with a Some False assms show ?thesis
      by (auto simp: deleteEnvelope_def Let_def split: option.splits)
  qed
qed

lemma core_invariant_append:
  assumes "core_invariant envs" "\<not> isIncome e" "\<not> isOverflow e"
  shows "core_invariant (envs @ [e])"
  using assms by (auto simp: core_invariant_def isCoreEnvelope_def)

lemma core_invariant_addEnvelope:
  assumes "core_invariant (envelopes s)" "\<not> truthy (isIncome_flag fl)" "\<not> truthy (isOverflow_flag fl)"
  shows "core_invariant (envelopes (addEnvelope n d fl u s))"
  using assms by (simp add: addEnvelope_def core_invariant_append Envelope_def)

lemma core_invariant_updateEnvelope:
  assumes "core_invariant (envelopes s)" "isIncome_upd updates = None" "isOverflow_upd updates = None"
  shows "core_invariant (envelopes (updateEnvelope i updates s))"
proof (cases "findIndex (\<lambda>e. id_env e = i) (envelopes s)")
  case None
  with assms show ?thesis by (simp add: updateEnvelope_def)
next
  case (Some k)
  let ?e = "envelopes s ! k"
  have "core_invariant (modify k f (envelopes s))"
    if "core_sig (f ?e) = core_sig ?e" for f
    using assms(1) that by (rule core_invariant_modify)
  moreover have "core_sig (assign a (\<lambda>b e. e\<lparr>isCreditCard := b\<rparr>) ?e) = core_sig ?e" for a
    by (cases a) (simp_all add: assign_def core_sig_def isCoreEnvelope_def)
  moreover have "core_sig
          (assign a5 (\<lambda>b e. e\<lparr>isActive := b\<rparr>)
            (assign a4 (\<lambda>b e. e\<lparr>isCreditCard := b\<rparr>)
              (assign a2 (\<lambda>d e. e\<lparr>targetCents := dollarsToCents d\<rparr>)
                (assign a1 (\<lambda>n e. e\<lparr>name := n\<rparr>) ?e)))) = core_sig ?e"
    if "\<not> isCoreEnvelope ?e" for a1 a2 a4 a5
    using that
    by (intro core_sig_not_core) (auto simp: assign_def split: option.splits)
  ultimately show ?thesis
    using Some assms(2,3) by (simp add: updateEnvelope_def Let_def assign_def)
qed

lemma core_invariant_cleanup:
  assumes "core_invariant (envelopes s)"
  shows "core_invariant (envelopes (cleanupUnusedEnvelopes s))"
proof -
  let ?k = "keep (usedIds (transactions s))"
  have "filter P (filter ?k xs) = filter P xs" if "\<And>e. P e \<Longrightarrow> isCoreEnvelope e" for P xs
    using that by (induction xs) (auto simp: keep_def)
  then have "filter isIncome (filter ?k xs) = filter isIncome xs"
    "filter isOverflow (filter ?k xs) = filter isOverflow xs" for xs
    by (simp_all add: isCoreEnvelope_def)
  with assms show ?thesis
    by (simp add: cleanupUnusedEnvelopes_def core_invariant_def)
qed

text \<open>
  Claim C2, as the code has it. On a state that satisfies the core invariant (as every
  state does after \<open>ensureCoreEnvelopes\<close>, lemma \<open>ensureCore_invariant\<close>), every
  public operation preserves it, provided \<open>addEnvelope\<close> is not given flags that set
  \<open>isIncome\<close> or \<open>isOverflow\<close> and \<open>updateEnvelope\<close> is not given a patch with
  \<open>isIncome\<close> or \<open>isOverflow\<close>: exactly one envelope has \<open>isIncome\<close>, exactly
  one has \<open>isOverflow\<close>, and both are active with a target of zero.
\<close>

theorem core_invariant_preserved:
  assumes "core_invariant (envelopes s)" "flag_neutral op"
  shows "core_invariant (envelopes (run op s))"
proof (cases op)
  case (AddEnvelope n d fl u)
  with assms show ?thesis by (simp add: core_invariant_addEnvelope)
next
  case (UpdateEnvelope i updates)
  with assms show ?thesis by (simp add: core_invariant_updateEnvelope)
next
  case (DeleteEnvelope i ok newId now)
  with assms show ?thesis by (simp add: core_invariant_deleteEnvelope)
next
  case (AddTransaction fr to d nt lg newId now)
  with assms show ?thesis by (simp add: core_invariant_addTransaction)
next
  case (UpdateTransaction i updates)
  with assms show ?thesis by (simp add: core_invariant_updateTransaction)
next
  case (DeleteTransaction i)
  with assms show ?thesis by (simp add: core_invariant_deleteTransaction)
next
  case (AutoAllocate ok newId now)
  have "map core_sig (envelopes (autoAllocate ok newId now s)) = map core_sig (envelopes s)"
    by (rule map_autoAllocate_same) simp
  then have "core_invariant (envelopes (autoAllocate ok newId now s))"
    using assms(1) by (rule core_invariant_cong)
  with AutoAllocate show ?thesis by simp
next
  case (PruneOldTransactions cutoffISO)
  with assms show ?thesis by (simp add: pruneOldTransactions_def Let_def)
next
  case CleanupUnusedEnvelopes
  with assms show ?thesis by (simp add: core_invariant_cleanup)
qed

theorem core_invariant_preserved_witness:
  "core_invariant (envelopes allocated_state) \<and>
   flag_neutral (DeleteEnvelope ''env_1'' True ''tx_3'' ''2026-11-02T09:00:00.000Z'') \<and>
   core_invariant
     (envelopes (run (DeleteEnvelope ''env_1'' True ''tx_3'' ''2026-11-02T09:00:00.000Z'')
        allocated_state))"
proof -
  have h: "core_invariant (envelopes allocated_state)"
    unfolding allocated_state_eq by (simp add: core_invariant_def eval_defs)
  show ?thesis
    using h core_invariant_preserved
      [OF h, of "DeleteEnvelope ''env_1'' True ''tx_3'' ''2026-11-02T09:00:00.000Z''"]
    by simp
qed

text \<open>
  The claim as stated fails for \<open>updateEnvelope\<close>, which assigns the flags of the patch
  to any envelope: clearing \<open>isIncome\<close> on the Income envelope of a fresh budget leaves
  no Income envelope.
\<close>

theorem core_invariant_updateEnvelope_counterexample:
  "core_invariant (envelopes fresh_state) \<and>
   \<not> core_invariant
        (envelopes (run (UpdateEnvelope ''env_income'' (no_updates\<lparr>isIncome_upd := Some False\<rparr>))
           fresh_state))"
  unfolding fresh_state_eq
  by (simp add: core_invariant_def updateEnvelope_def no_updates_def assign_def eval_defs)

section \<open>Amounts of the stored transactions\<close>

lemma amounts_nonzero_cong:
  "transactions s' = transactions s \<Longrightarrow> amounts_nonzero s \<Longrightarrow> amounts_nonzero s'"
  by (simp add: amounts_nonzero_def)

lemma amounts_nonzero_subset:
  "set (transactions s') \<subseteq> set (transactions s) \<Longrightarrow> amounts_nonzero s \<Longrightarrow> amounts_nonzero s'"
  by (auto simp: amounts_nonzero_def)

lemma addTransaction_zero:
  "dollarsToCents d = 0 \<Longrightarrow> addTransaction fr to d nt lg newId now s = s"
  by (simp add: addTransaction_def)

lemma amounts_nonzero_addTransaction:
  "amounts_nonzero s \<Longrightarrow> amounts_nonzero (addTransaction fr to d nt lg newId now s)"
  by (auto simp: addTransaction_def Let_def amounts_nonzero_def Transaction_def)

lemma transactions_addTransaction_unlogged [simp]:
  "transactions (addTransaction fr to d nt False newId now s) = transactions s"
  by (simp add: addTransaction_def Let_def)

lemma transactions_fold_same:
  assumes "\<And>k s. transactions (step k s) = transactions s"
  shows "transactions (fold step ks s) = transactions s"
  by (induction ks arbitrary: s) (simp_all add: assms)

lemma transactions_autoAllocate [simp]:
  "transactions (autoAllocate ok newId now s) = transactions s"
proof -
  have "transactions (fold (\<lambda>k s'.
          addTransaction (Some (id_env (envelopes s' ! m))) (Some (id_env (envelopes s' ! k)))
            (fl64 (of_int (targetCents (envelopes s' ! k)) / 100)) ''Auto allocation'' False newId now s')
          ks s) = transactions s" for m ks
    by (rule transactions_fold_same) simp
  then show ?thesis
    by (simp add: autoAllocate_def Let_def split: option.splits)
qed

lemma amounts_nonzero_deleteEnvelope:
  assumes "amounts_nonzero s"
  shows "amounts_nonzero (deleteEnvelope i ok newId now s)"
proof -
  have "amounts_nonzero (s1\<lparr>envelopes := es\<rparr>)"
    if "s1 = addTransaction fr to d nt True newId now s" for s1 es fr to d nt
    using amounts_nonzero_addTransaction [OF assms, of fr to d nt True newId now] that
    by (simp add: amounts_nonzero_def)
  moreover have "amounts_nonzero (s\<lparr>envelopes := es\<rparr>)" for es
    using assms by (simp add: amounts_nonzero_def)
  ultimately show ?thesis
    using assms by (simp add: deleteEnvelope_def Let_def split: option.splits)
qed

lemma amounts_nonzero_updateTransaction:
  assumes "amounts_nonzero s" "amountDollars_upd updates = None"
  shows "amounts_nonzero (updateTransaction i updates s)"
proof (cases "findIndex (\<lambda>t. id_tx t = i) (transactions s)")
  case None
  with assms show ?thesis by (simp add: updateTransaction_def)
next
  case (Some n)
  then have "n < length (transactions s)" by (simp add: findIndex_Some_iff)
  then have old: "amountCents (transactions s ! n) \<noteq> 0"
    using assms(1) by (simp add: amounts_nonzero_def)
  define newTx where "newTx = Transaction (id_tx (transactions s ! n)) (timestamp (transactions s ! n))
      (case fromEnvelopeId_upd updates of None \<Rightarrow> fromEnvelopeId (transactions s ! n) | Some r \<Rightarrow> r)
      (case toEnvelopeId_upd updates of None \<Rightarrow> toEnvelopeId (transactions s ! n) | Some r \<Rightarrow> r)
      (amountCents (transactions s ! n))
      (case note_upd updates of None \<Rightarrow> note_tx (transactions s ! n) | Some n \<Rightarrow> n)"
  have new: "amountCents newTx \<noteq> 0" using old by (simp add: newTx_def Transaction_def)
  have "transactions (updateTransaction i updates s) = (transactions s)[n := newTx]"
    using Some assms(2) by (simp add: updateTransaction_def Let_def newTx_def)
  moreover have "set ((transactions s)[n := newTx]) \<subseteq> insert newTx (set (transactions s))"
    by (rule set_update_subset_insert)
  ultimately show ?thesis
    using assms(1) new by (auto simp: amounts_nonzero_def)
qed

lemma amounts_nonzero_deleteTransaction:
  assumes "amounts_nonzero s"
  shows "amounts_nonzero (deleteTransaction i s)"
proof -
  have "set (splice1 n xs) \<subseteq> set xs" for n and xs :: "transaction list"
    using set_take_subset [of n xs] set_drop_subset [of "Suc n" xs]
    by (auto simp: splice1_def)
  then show ?thesis
    using assms
    by (auto simp: deleteTransaction_def Let_def amounts_nonzero_def split: option.splits)
qed

lemma amounts_nonzero_run:
  assumes "amounts_nonzero s" "amount_kept op"
  shows "amounts_nonzero (run op s)"
proof (cases op)
  case (AddEnvelope n d fl u)
  with assms show ?thesis by (simp add: addEnvelope_def amounts_nonzero_def)
next
  case (UpdateEnvelope i updates)
  with assms show ?thesis
    by (simp add: updateEnvelope_def Let_def amounts_nonzero_def split: option.splits)
next
  case (DeleteEnvelope i ok newId now)
  with assms show ?thesis by (simp add: amounts_nonzero_deleteEnvelope)
next
  case (AddTransaction fr to d nt lg newId now)
  with assms show ?thesis by (simp add: amounts_nonzero_addTransaction)
next
  case (UpdateTransaction i updates)
  with assms show ?thesis by (simp add: amounts_nonzero_updateTransaction)
next
  case (DeleteTransaction i)
  with assms show ?thesis by (simp add: amounts_nonzero_deleteTransaction)
next
  case (AutoAllocate ok newId now)
  with assms show ?thesis by (simp add: amounts_nonzero_def)
next
  case (PruneOldTransactions cutoffISO)
  with assms show ?thesis by (simp add: pruneOldTransactions_def Let_def amounts_nonzero_def)
next
  case CleanupUnusedEnvelopes
  with assms show ?thesis by (simp add: cleanupUnusedEnvelopes_def amounts_nonzero_def)
qed

text \<open>
  Claim C3, as the code has it. \<open>addTransaction\<close> returns the state unchanged (nothing
  stored, no balance touched) when the converted amount is zero. If every stored
  transaction has a nonzero \<open>amountCents\<close>, this still holds after any public operation
  other than an \<open>updateTransaction\<close> whose patch carries \<open>amountDollars\<close>; included
  are \<open>addTransaction\<close> with any amount and the auto-merge of \<open>deleteEnvelope\<close>.
  Amounts are nonzero integers, not necessarily positive.
\<close>

theorem stored_amounts_nonzero:
  "(dollarsToCents d = 0 \<longrightarrow> addTransaction fr to d nt lg newId now s = s) \<and>
   (amounts_nonzero s \<and> amount_kept op \<longrightarrow> amounts_nonzero (run op s))"
  by (simp add: addTransaction_zero amounts_nonzero_run)

theorem stored_amounts_nonzero_witness:
  "dollarsToCents (1 / 1000) = 0 \<and>
   addTransaction None (Some ''env_income'') (1 / 1000) ''Rounding'' True
     ''tx_9'' ''2026-11-02T09:00:00.000Z'' overdrawn_state = overdrawn_state \<and>
   amounts_nonzero overdrawn_state \<and>
   amount_kept (DeleteEnvelope ''env_1'' True ''tx_3'' ''2026-11-02T09:00:00.000Z'') \<and>
   amounts_nonzero
     (run (DeleteEnvelope ''env_1'' True ''tx_3'' ''2026-11-02T09:00:00.000Z'') overdrawn_state)"
proof -
  have tenth: "fl64 (1 / 10) = 7205759403792794 / 2 ^ 56"
    by (subst fl64_eval [of "- 4"]) (simp_all add: rne_def)
  have z: "dollarsToCents (1 / 1000) = 0"
    by (simp add: dollarsToCents_def Math_round_def tenth)
  have n: "amounts_nonzero overdrawn_state"
    unfolding overdrawn_state_eq by (simp add: amounts_nonzero_def)
  show ?thesis
    using z n
      stored_amounts_nonzero [of "1 / 1000" None "Some ''env_income''" "''Rounding''" True
        "''tx_9''" "''2026-11-02T09:00:00.000Z''" overdrawn_state
        "DeleteEnvelope ''env_1'' True ''tx_3'' ''2026-11-02T09:00:00.000Z''"]
    by simp
qed

text \<open>
  The claim as stated asks for positive amounts. Groceries was overdrawn to -500 cents by a
  spend of 5.00; deleting the envelope stores the auto-merge transaction with
  \<open>amountCents = -500\<close>, which is what brings the balance back to zero.
\<close>

theorem negative_amount_counterexample:
  "map amountCents (transactions overdrawn_state) = [10000, 500] \<and>
   map amountCents
     (transactions
        (run (DeleteEnvelope ''env_1'' True ''tx_3'' ''2026-11-02T09:00:00.000Z'') overdrawn_state)) =
   [10000, 500, - 500]"
  unfolding overdrawn_state_eq
  by (simp add: deleteEnvelope_def merge_note_def eval_defs)

section \<open>Deleting a transaction\<close>

lemma length_reactivate [simp]: "length (reactivate r envs) = length envs"
  by (simp add: reactivate_def split: option.splits)

lemma nth_reactivate:
  assumes "j < length envs"
  shows "reactivate r envs ! j =
         (envs ! j)\<lparr>isActive := isActive (envs ! j) \<or> resolve envs r = Some j\<rparr>"
proof (cases "resolve envs r")
  case None
  then show ?thesis by (simp add: reactivate_def)
next
  case (Some k)
  show ?thesis
  proof (cases "isActive (envs ! k)")
    case True
    with Some show ?thesis by (cases "j = k") (simp_all add: reactivate_def)
  next
    case False
    with Some assms show ?thesis by (simp add: reactivate_def nth_modify)
  qed
qed

lemma map_id_reactivate [simp]: "map id_env (reactivate r envs) = map id_env envs"
  by (rule nth_equalityI) (simp_all add: nth_reactivate)

lemma resolve_reactivate [simp]: "resolve (reactivate r envs) r' = resolve envs r'"
  by (rule resolve_cong) simp

lemma refers_cong:
  "map id_env xs = map id_env ys \<Longrightarrow> refers xs tx j = refers ys tx j"
  unfolding refers_def using resolve_cong [of xs ys] by simp

lemma balance_after_cong:
  assumes "map id_env xs = map id_env ys" "balanceCents (xs ! j) = balanceCents (ys ! j)"
  shows "balance_after xs tx d j = balance_after ys tx d j"
  unfolding balance_after_def using resolve_cong [OF assms(1)] assms(2) by simp

lemma balance_after_reapply:
  assumes "refers envs tx j \<longrightarrow> \<bar>balanceCents (envs ! j)\<bar> + \<bar>amountCents tx\<bar> \<le> 2 ^ 53"
    and "j < length envs"
  shows "balance_after (applyTransactionToBalances tx (- 1) envs) tx 1 j = balanceCents (envs ! j)"
proof -
  let ?envs1 = "applyTransactionToBalances tx (- 1) envs"
  have r: "resolve ?envs1 r' = resolve envs r'" for r'
    by (rule resolve_cong) simp
  have b1: "balanceCents (?envs1 ! j) = balance_after envs tx (- 1) j"
    using assms(2) by (simp add: nth_applyTransactionToBalances)
  show ?thesis
  proof (cases "refers envs tx j")
    case False
    then show ?thesis by (simp add: balance_after_def r b1 refers_def)
  next
    case True
    note f = dbl_in_range [OF assms(1) [rule_format, OF True]]
    show ?thesis
      unfolding balance_after_def [of ?envs1] r b1 Let_def
      by (auto simp: balance_after_def Let_def f)
  qed
qed

lemma merged_state_eq:
  "merged_state =
     \<lparr>envelopes = [income_new\<lparr>balanceCents := 10000\<rparr>, overflow_new,
        \<lparr>id_env = ''env_1'', name = ''Groceries'', targetCents = 5000, balanceCents = 0,
         isIncome = False, isOverflow = False, isCreditCard = False, isActive = False\<rparr>],
      transactions = [\<lparr>id_tx = ''tx_1'', timestamp = ''2026-11-01T09:00:00.000Z'',
         fromEnvelopeId = None, toEnvelopeId = Some ''env_income'', amountCents = 10000,
         note_tx = ''New Income''\<rparr>,
        \<lparr>id_tx = ''tx_3'', timestamp = ''2026-11-02T09:00:00.000Z'',
         fromEnvelopeId = Some ''env_1'', toEnvelopeId = Some ''env_income'', amountCents = 5000,
         note_tx = merge_note ''Groceries''\<rparr>],
      bankBalanceCents = 0, settings = \<lparr>transactionRetentionDays = Some 30\<rparr>\<rparr>"
  unfolding merged_state_def allocated_state_eq
  by (simp add: deleteEnvelope_def eval_defs)

lemma gc_state_eq:
  "gc_state =
     \<lparr>envelopes = [income_new\<lparr>balanceCents := 10000\<rparr>, overflow_new,
        \<lparr>id_env = ''env_1'', name = ''Groceries'', targetCents = 5000, balanceCents = 0,
         isIncome = False, isOverflow = False, isCreditCard = False, isActive = False\<rparr>,
        \<lparr>id_env = ''env_2'', name = ''Old'', targetCents = 0, balanceCents = 0,
         isIncome = False, isOverflow = False, isCreditCard = False, isActive = False\<rparr>],
      transactions = [\<lparr>id_tx = ''tx_1'', timestamp = ''2026-11-01T09:00:00.000Z'',
         fromEnvelopeId = None, toEnvelopeId = Some ''env_income'', amountCents = 10000,
         note_tx = ''New Income''\<rparr>,
        \<lparr>id_tx = ''tx_3'', timestamp = ''2026-11-02T09:00:00.000Z'',
         fromEnvelopeId = Some ''env_1'', toEnvelopeId = Some ''env_income'', amountCents = 5000,
         note_tx = merge_note ''Groceries''\<rparr>],
      bankBalanceCents = 0, settings = \<lparr>transactionRetentionDays = Some 30\<rparr>\<rparr>"
  unfolding gc_state_def merged_state_eq
  by (simp add: deleteEnvelope_def eval_defs)

text \<open>
  Claim C5, as the code has it. If no transaction has the given id, \<open>deleteTransaction\<close>
  returns the state unchanged. Otherwise, with \<open>tx\<close> the first transaction of that id,
  and provided every envelope whose id \<open>tx\<close> names has
  \<open>|balanceCents| + |amountCents| \<le> 2^53\<close>: \<open>tx\<close> is removed
  from the list and the rest keeps its order; every envelope that a reference of \<open>tx\<close>
  resolves to is active afterwards (an inactive one is reactivated) and no other envelope
  changes its \<open>isActive\<close>; every balance is its old value minus the effect \<open>delta\<close>
  that applying \<open>tx\<close> has on that envelope (lemma \<open>balance_after_exact\<close>),
  so that applying \<open>tx\<close> again gives the old balances; nothing else changes.
\<close>

theorem deleteTransaction_effect:
  "(findIndex (\<lambda>t. id_tx t = i) (transactions s) = None \<longrightarrow> deleteTransaction i s = s) \<and>
   (\<forall>n. findIndex (\<lambda>t. id_tx t = i) (transactions s) = Some n \<and>
        exact_range (envelopes s) (transactions s ! n) \<longrightarrow>
      (let tx = transactions s ! n; s' = deleteTransaction i s
       in transactions s' = take n (transactions s) @ drop (Suc n) (transactions s) \<and>
          length (envelopes s') = length (envelopes s) \<and>
          (\<forall>j<length (envelopes s).
             envelopes s' ! j =
               (envelopes s ! j)
                 \<lparr>isActive := isActive (envelopes s ! j) \<or> refers (envelopes s) tx j,
                  balanceCents := balanceCents (envelopes s ! j) - delta (envelopes s) tx j\<rparr>) \<and>
          map balanceCents (applyTransactionToBalances tx 1 (envelopes s')) =
            map balanceCents (envelopes s) \<and>
          bankBalanceCents s' = bankBalanceCents s \<and> settings s' = settings s))"
proof (intro conjI allI impI)
  assume "findIndex (\<lambda>t. id_tx t = i) (transactions s) = None"
  then show "deleteTransaction i s = s" by (simp add: deleteTransaction_def)
next
  fix n
  assume "findIndex (\<lambda>t. id_tx t = i) (transactions s) = Some n \<and>
          exact_range (envelopes s) (transactions s ! n)"
  then have n: "findIndex (\<lambda>t. id_tx t = i) (transactions s) = Some n"
    and x: "exact_range (envelopes s) (transactions s ! n)" by simp_all
  define tx where "tx = transactions s ! n"
  define envs1 where
    "envs1 = reactivate (toEnvelopeId tx) (reactivate (fromEnvelopeId tx) (envelopes s))"
  define s' where "s' = deleteTransaction i s"
  have s': "s' = s\<lparr>envelopes := applyTransactionToBalances tx (-1) envs1,
                   transactions := splice1 n (transactions s)\<rparr>"
    using n by (simp add: s'_def deleteTransaction_def Let_def tx_def envs1_def)
  have ids: "map id_env envs1 = map id_env (envelopes s)" by (simp add: envs1_def)
  have d1: "delta envs1 tx j = delta (envelopes s) tx j" for j
    unfolding delta_def using resolve_cong [OF ids] by simp
  have n1: "envs1 ! j = (envelopes s ! j)\<lparr>isActive := isActive (envelopes s ! j) \<or>
              refers (envelopes s) tx j\<rparr>" if "j < length (envelopes s)" for j
    using that by (auto simp: envs1_def nth_reactivate refers_def)
  have len: "length (envelopes s') = length (envelopes s)" by (simp add: s' envs1_def)
  have len1: "length envs1 = length (envelopes s)" by (simp add: envs1_def)
  have bound1: "refers envs1 tx j \<longrightarrow> \<bar>balanceCents (envs1 ! j)\<bar> + \<bar>amountCents tx\<bar> \<le> 2 ^ 53"
    if "j < length (envelopes s)" for j
    using exact_rangeD [OF x that] refers_cong [OF ids, of tx j] n1 [OF that]
    by (simp add: tx_def)
  have nth: "envelopes s' ! j =
               (envelopes s ! j)
                 \<lparr>isActive := isActive (envelopes s ! j) \<or> refers (envelopes s) tx j,
                  balanceCents := balanceCents (envelopes s ! j) - delta (envelopes s) tx j\<rparr>"
    if "j < length (envelopes s)" for j
    using that len1 balance_after_exact [OF bound1 [OF that], of "- 1"] n1 [OF that]
    by (simp add: s' nth_applyTransactionToBalances d1)
  have ids': "map id_env (envelopes s') = map id_env (envelopes s)"
    by (simp add: s' ids)
  have d': "delta (envelopes s') tx j = delta (envelopes s) tx j" for j
    unfolding delta_def using resolve_cong [OF ids'] by simp
  have reapplied: "map balanceCents (applyTransactionToBalances tx 1 (envelopes s')) =
              map balanceCents (envelopes s)"
  proof (rule nth_equalityI)
    show "length (map balanceCents (applyTransactionToBalances tx 1 (envelopes s'))) =
          length (map balanceCents (envelopes s))"
      by (simp add: len)
  next
    fix j
    assume "j < length (map balanceCents (applyTransactionToBalances tx 1 (envelopes s')))"
    then have j: "j < length (envelopes s)" by (simp add: len)
    have "balance_after (applyTransactionToBalances tx (- 1) envs1) tx 1 j = balanceCents (envs1 ! j)"
      using bound1 [OF j] j len1 by (intro balance_after_reapply) simp_all
    then show "map balanceCents (applyTransactionToBalances tx 1 (envelopes s')) ! j =
               map balanceCents (envelopes s) ! j"
      using j len1 n1 [OF j] by (simp add: s' nth_applyTransactionToBalances)
  qed
  show "let tx = transactions s ! n; s' = deleteTransaction i s
       in transactions s' = take n (transactions s) @ drop (Suc n) (transactions s) \<and>
          length (envelopes s') = length (envelopes s) \<and>
          (\<forall>j<length (envelopes s).
             envelopes s' ! j =
               (envelopes s ! j)
                 \<lparr>isActive := isActive (envelopes s ! j) \<or> refers (envelopes s) tx j,
                  balanceCents := balanceCents (envelopes s ! j) - delta (envelopes s) tx j\<rparr>) \<and>
          map balanceCents (applyTransactionToBalances tx 1 (envelopes s')) =
            map balanceCents (envelopes s) \<and>
          bankBalanceCents s' = bankBalanceCents s \<and> settings s' = settings s"
    unfolding Let_def tx_def [symmetric] s'_def [symmetric]
    using len nth reapplied by (simp add: s' splice1_def)
qed

theorem deleteTransaction_effect_witness:
  "findIndex (\<lambda>t. id_tx t = ''tx_3'') (transactions merged_state) = Some 1 \<and>
   exact_range (envelopes merged_state) (transactions merged_state ! 1) \<and>
   map id_tx (transactions (deleteTransaction ''tx_3'' merged_state)) = [''tx_1''] \<and>
   envelopes (deleteTransaction ''tx_3'' merged_state) ! 0 = income_new\<lparr>balanceCents := 5000\<rparr> \<and>
   envelopes (deleteTransaction ''tx_3'' merged_state) ! 2 =
     \<lparr>id_env = ''env_1'', name = ''Groceries'', targetCents = 5000, balanceCents = 5000,
      isIncome = False, isOverflow = False, isCreditCard = False, isActive = True\<rparr> \<and>
   findIndex (\<lambda>t. id_tx t = ''tx_0'') (transactions merged_state) = None \<and>
   deleteTransaction ''tx_0'' merged_state = merged_state"
proof -
  have f: "findIndex (\<lambda>t. id_tx t = ''tx_3'') (transactions merged_state) = Some 1"
    unfolding merged_state_eq by simp
  have g: "findIndex (\<lambda>t. id_tx t = ''tx_0'') (transactions merged_state) = None"
    unfolding merged_state_eq by simp
  have r: "resolve (envelopes merged_state) (Some ''env_1'') = Some 2"
    "resolve (envelopes merged_state) (Some ''env_income'') = Some 0"
    unfolding merged_state_eq by (simp_all add: resolve_def income_new_def overflow_new_def Envelope_def)
  have e: "envelopes merged_state ! 0 = income_new\<lparr>balanceCents := 10000\<rparr>"
    "envelopes merged_state ! 1 = overflow_new"
    "envelopes merged_state ! 2 = \<lparr>id_env = ''env_1'', name = ''Groceries'', targetCents = 5000, balanceCents = 0,
         isIncome = False, isOverflow = False, isCreditCard = False, isActive = False\<rparr>"
    "length (envelopes merged_state) = 3"
    "transactions merged_state ! 1 = \<lparr>id_tx = ''tx_3'', timestamp = ''2026-11-02T09:00:00.000Z'',
         fromEnvelopeId = Some ''env_1'', toEnvelopeId = Some ''env_income'', amountCents = 5000,
         note_tx = merge_note ''Groceries''\<rparr>"
    unfolding merged_state_eq by simp_all
  have x: "exact_range (envelopes merged_state) (transactions merged_state ! 1)"
    unfolding merged_state_eq
    by (simp add: exact_range_def income_new_def overflow_new_def Envelope_def)
  from deleteTransaction_effect [of "''tx_3''" merged_state] f x
  have t: "transactions (deleteTransaction ''tx_3'' merged_state) =
             take 1 (transactions merged_state) @ drop (Suc 1) (transactions merged_state)"
    and n: "\<forall>j<3. envelopes (deleteTransaction ''tx_3'' merged_state) ! j =
               (envelopes merged_state ! j)
                 \<lparr>isActive := isActive (envelopes merged_state ! j) \<or>
                     refers (envelopes merged_state) (transactions merged_state ! 1) j,
                  balanceCents := balanceCents (envelopes merged_state ! j) -
                     delta (envelopes merged_state) (transactions merged_state ! 1) j\<rparr>"
    by (simp_all add: Let_def e(4))
  have n0: "envelopes (deleteTransaction ''tx_3'' merged_state) ! 0 =
              income_new\<lparr>balanceCents := 5000\<rparr>"
    using n e r by (simp add: refers_def delta_def income_new_def Envelope_def not_false_def)
  have n2: "envelopes (deleteTransaction ''tx_3'' merged_state) ! 2 =
      \<lparr>id_env = ''env_1'', name = ''Groceries'', targetCents = 5000, balanceCents = 5000,
         isIncome = False, isOverflow = False, isCreditCard = False, isActive = True\<rparr>"
    using n e r by (simp add: refers_def delta_def)
  have t': "map id_tx (transactions (deleteTransaction ''tx_3'' merged_state)) = [''tx_1'']"
    unfolding t by (simp add: merged_state_eq)
  from deleteTransaction_effect [of "''tx_0''" merged_state] g
  have "deleteTransaction ''tx_0'' merged_state = merged_state" by simp
  with f g x n0 n2 t' show ?thesis by simp
qed

text \<open>
  The claim as stated has no bound. With Income at \<open>-2^53\<close> cents and a stored
  transaction of one cent into Income, the rollback computes \<open>-2^53 - 1\<close>, which is
  not a double and rounds back to \<open>-2^53\<close>: the balance is not reduced by the
  transaction's effect, and applying the transaction again does not give the old balance.
\<close>

theorem deleteTransaction_rounding_counterexample:
  "findIndex (\<lambda>t. id_tx t = ''tx_c'') (transactions debt_state) = Some 0 \<and>
   balanceCents (envelopes debt_state ! 0) = - 9007199254740992 \<and>
   delta (envelopes debt_state) (transactions debt_state ! 0) 0 = 1 \<and>
   balanceCents (envelopes (deleteTransaction ''tx_c'' debt_state) ! 0) = - 9007199254740992 \<and>
   balanceCents
     (applyTransactionToBalances (transactions debt_state ! 0) 1
        (envelopes (deleteTransaction ''tx_c'' debt_state)) ! 0) = - 9007199254740991"
  by (simp add: debt_state_def tx_cent_def deleteTransaction_def reactivate_def splice1_def
        delta_def dbl_above_exact_range eval_defs)

section \<open>Rollback at the scenario and at the edge of the exact range\<close>

theorem rollback_exactness_witness:
  "exact_range (envelopes allocated_state) (transactions merged_state ! 1) \<and>
   applyTransactionToBalances (transactions merged_state ! 1) (- 1)
     (applyTransactionToBalances (transactions merged_state ! 1) 1 (envelopes allocated_state)) =
   envelopes allocated_state"
proof -
  have h: "exact_range (envelopes allocated_state) (transactions merged_state ! 1)"
    unfolding allocated_state_eq merged_state_eq
    by (simp add: exact_range_def income_new_def overflow_new_def Envelope_def)
  show ?thesis using h rollback_exactness [OF h] by simp
qed

text \<open>
  The claim as stated has no bound. With Income at \<open>2^53\<close> cents, applying a transaction
  of one cent into Income computes \<open>2^53 + 1\<close>, which is not a double and rounds to
  \<open>2^53\<close>; the rollback then gives \<open>2^53 - 1\<close>, one cent less than before.
\<close>

theorem rollback_rounding_counterexample:
  "map balanceCents big_envs = [9007199254740992, 0] \<and>
   map balanceCents
     (applyTransactionToBalances tx_cent (- 1) (applyTransactionToBalances tx_cent 1 big_envs)) =
   [9007199254740991, 0]"
  by (simp add: big_envs_def tx_cent_def dbl_above_exact_range eval_defs)

section \<open>Deleting an envelope\<close>

text \<open>
  Claim C4, as the code has it. Let the id \<open>i\<close> be non-empty and resolve to a non-core
  envelope with a nonzero balance of magnitude below \<open>2^51\<close> cents (where the double
  computation \<open>balanceCents / 100 * 100\<close> rounds back to \<open>balanceCents\<close>), and let the
  Income envelope have a non-empty id other than \<open>i\<close>. With the confirmation granted, \<open>deleteEnvelope\<close> appends one transaction
  from \<open>i\<close> to the Income envelope's id whose \<open>amountCents\<close> is the envelope's
  balance with its sign (not its absolute value), after which the envelope's balance is
  zero and the envelope is inactive.
\<close>

theorem deleteEnvelope_merges:
  assumes "findIndex (\<lambda>e. id_env e = i) (envelopes s) = Some k"
    and "\<not> isCoreEnvelope (envelopes s ! k)"
    and "getIncomeEnvelope s = Some m"
    and "balanceCents (envelopes s ! k) \<noteq> 0"
    and "i \<noteq> []"
    and "id_env (envelopes s ! m) \<noteq> []"
    and "id_env (envelopes s ! m) \<noteq> i"
    and "\<bar>balanceCents (envelopes s ! k)\<bar> < 2 ^ 51"
  shows "let s' = deleteEnvelope i True newId now s
         in transactions s' =
              transactions s @
                [\<lparr>id_tx = newId, timestamp = now, fromEnvelopeId = Some i,
                  toEnvelopeId = Some (id_env (envelopes s ! m)),
                  amountCents = balanceCents (envelopes s ! k),
                  note_tx = merge_note (name (envelopes s ! k))\<rparr>] \<and>
            balanceCents (envelopes s' ! k) = 0 \<and>
            isActive (envelopes s' ! k) = False"
proof -
  let ?env = "envelopes s ! k"
  let ?income = "envelopes s ! m"
  let ?tx = "\<lparr>id_tx = newId, timestamp = now, fromEnvelopeId = Some i,
              toEnvelopeId = Some (id_env ?income), amountCents = balanceCents ?env,
              note_tx = merge_note (name ?env)\<rparr>"
  have k: "k < length (envelopes s)" "id_env ?env = i"
    using assms(1) by (simp_all add: findIndex_Some_iff)
  have tx: "Transaction newId now (or_null (Some i)) (or_null (Some (id_env ?income)))
              (balanceCents ?env) (merge_note (name ?env)) = ?tx"
    using assms(5,6) by (simp add: Transaction_def or_null_def)
  have rf: "resolve (envelopes s) (fromEnvelopeId ?tx) = Some k"
    using assms(1,5) by (simp add: resolve_def)
  have rt: "resolve (envelopes s) (toEnvelopeId ?tx) \<noteq> Some k"
    using assms(6,7) k(2) by (auto simp: resolve_def findIndex_Some_iff)
  have "\<bar>balanceCents ?env\<bar> \<le> 2 ^ 53" using assms(8) by simp
  then have b: "dbl (balanceCents ?env) = balanceCents ?env" by (rule dbl_exact)
  have z: "dbl 0 = 0" by (simp add: dbl_exact)
  let ?s1 = "addTransaction (Some i) (Some (id_env ?income))
               (fl64 (of_int (balanceCents ?env) / 100))
               (merge_note (name ?env)) True newId now s"
  have s1: "?s1 = s\<lparr>envelopes := applyTransactionToBalances ?tx 1 (envelopes s),
                    transactions := transactions s @ [?tx]\<rparr>"
    using assms(4) dollarsToCents_of_cents [OF assms(8)]
    by (simp add: addTransaction_def Let_def tx)
  have del: "deleteEnvelope i True newId now s =
             ?s1\<lparr>envelopes := modify k (\<lambda>e. e\<lparr>isActive := False\<rparr>) (envelopes ?s1)\<rparr>"
    using assms(1-4) k(2) by (simp add: deleteEnvelope_def Let_def)
  have "balanceCents (applyTransactionToBalances ?tx 1 (envelopes s) ! k) = 0"
    using k(1) rf rt by (simp add: nth_applyTransactionToBalances balance_after_def b z)
  then show ?thesis
    unfolding Let_def del using k(1) by (simp add: s1 nth_modify)
qed

theorem deleteEnvelope_merges_witness:
  "findIndex (\<lambda>e. id_env e = ''env_1'') (envelopes allocated_state) = Some 2 \<and>
   \<not> isCoreEnvelope (envelopes allocated_state ! 2) \<and>
   getIncomeEnvelope allocated_state = Some 0 \<and>
   balanceCents (envelopes allocated_state ! 2) = 5000 \<and>
   id_env (envelopes allocated_state ! 0) = ''env_income'' \<and>
   transactions (deleteEnvelope ''env_1'' True ''tx_3'' ''2026-11-02T09:00:00.000Z'' allocated_state) =
     transactions allocated_state @
       [\<lparr>id_tx = ''tx_3'', timestamp = ''2026-11-02T09:00:00.000Z'',
         fromEnvelopeId = Some ''env_1'', toEnvelopeId = Some ''env_income'',
         amountCents = 5000, note_tx = merge_note ''Groceries''\<rparr>] \<and>
   balanceCents
     (envelopes (deleteEnvelope ''env_1'' True ''tx_3'' ''2026-11-02T09:00:00.000Z'' allocated_state) ! 2) = 0 \<and>
   isActive
     (envelopes (deleteEnvelope ''env_1'' True ''tx_3'' ''2026-11-02T09:00:00.000Z'' allocated_state) ! 2) = False"
proof -
  have h1: "findIndex (\<lambda>e. id_env e = ''env_1'') (envelopes allocated_state) = Some 2"
    unfolding allocated_state_eq
    by (simp add: income_new_def overflow_new_def Envelope_def)
  have h2: "\<not> isCoreEnvelope (envelopes allocated_state ! 2)"
    unfolding allocated_state_eq by (simp add: isCoreEnvelope_def)
  have h3: "getIncomeEnvelope allocated_state = Some 0"
    unfolding allocated_state_eq
    by (simp add: getIncomeEnvelope_def income_new_def Envelope_def truthy_def)
  have v: "balanceCents (envelopes allocated_state ! 2) = 5000"
    "id_env (envelopes allocated_state ! 0) = ''env_income''"
    "name (envelopes allocated_state ! 2) = ''Groceries''"
    unfolding allocated_state_eq by (simp_all add: income_new_def Envelope_def)
  have h4: "balanceCents (envelopes allocated_state ! 2) \<noteq> 0" using v by simp
  have h5: "''env_1'' \<noteq> []" by simp
  have h6: "id_env (envelopes allocated_state ! 0) \<noteq> []" using v by simp
  have h7: "id_env (envelopes allocated_state ! 0) \<noteq> ''env_1''" using v by simp
  have h8: "\<bar>balanceCents (envelopes allocated_state ! 2)\<bar> < 2 ^ 51" using v by simp
  show ?thesis
    using h1 h2 h3 v
      deleteEnvelope_merges [OF h1 h2 h3 h4 h5 h6 h7 h8, of "''tx_3''" "''2026-11-02T09:00:00.000Z''"]
    by (simp add: Let_def)
qed

text \<open>
  The claim as stated has \<open>amountCents = |balanceCents|\<close>. For the overdrawn Groceries
  envelope (balance -500) the stored amount is -500, not 500.
\<close>

theorem deleteEnvelope_abs_counterexample:
  "balanceCents (envelopes overdrawn_state ! 2) = - 500 \<and>
   \<bar>balanceCents (envelopes overdrawn_state ! 2)\<bar> = 500 \<and>
   amountCents
     (last (transactions
        (deleteEnvelope ''env_1'' True ''tx_3'' ''2026-11-02T09:00:00.000Z'' overdrawn_state))) = - 500"
  unfolding overdrawn_state_eq
  by (simp add: deleteEnvelope_def merge_note_def eval_defs)

section \<open>Auto-allocation\<close>

lemma ids_wf_map:
  "ids_wf envs \<longleftrightarrow> distinct (map id_env envs) \<and> [] \<notin> set (map id_env envs)"
proof -
  have "[] \<notin> set (map id_env envs) \<longleftrightarrow> (\<forall>e\<in>set envs. id_env e \<noteq> [])"
    by (induction envs) auto
  then show ?thesis by (simp only: ids_wf_def)
qed

lemma resolve_own:
  assumes "ids_wf envs" "k < length envs"
  shows "resolve envs (Some (id_env (envs ! k))) = Some k"
proof -
  have "envs ! k \<in> set envs" using assms(2) by simp
  then have ne: "id_env (envs ! k) \<noteq> []"
    using assms(1) by (auto simp: ids_wf_def)
  have "id_env (envs ! j) \<noteq> id_env (envs ! k)" if "j < k" for j
  proof -
    have "distinct (map id_env envs)" using assms(1) by (simp add: ids_wf_def)
    then have "map id_env envs ! j \<noteq> map id_env envs ! k"
      using assms(2) that nth_eq_iff_index_eq [of "map id_env envs" j k] by simp
    then show ?thesis using assms(2) that by simp
  qed
  then have "findIndex (\<lambda>e. id_env e = id_env (envs ! k)) envs = Some k"
    using assms(2) by (simp add: findIndex_Some_iff)
  with ne show ?thesis by (simp add: resolve_def)
qed

lemma allocate_step:
  fixes nt newId now :: string
  assumes "ids_wf (envelopes s)" "m < length (envelopes s)" "k < length (envelopes s)"
    and "0 < targetCents (envelopes s ! k)"
    and "targetCents (envelopes s ! k) < 2 ^ 51"
    and "\<bar>balanceCents (envelopes s ! m)\<bar> + targetCents (envelopes s ! k) \<le> 2 ^ 53"
    and "\<bar>balanceCents (envelopes s ! k)\<bar> + targetCents (envelopes s ! k) \<le> 2 ^ 53"
  defines "s1 \<equiv> addTransaction (Some (id_env (envelopes s ! m))) (Some (id_env (envelopes s ! k)))
                  (fl64 (of_int (targetCents (envelopes s ! k)) / 100)) nt False newId now s"
  shows "transactions s1 = transactions s"
    and "length (envelopes s1) = length (envelopes s)"
    and "map id_env (envelopes s1) = map id_env (envelopes s)"
    and "j < length (envelopes s) \<Longrightarrow>
         envelopes s1 ! j =
           (envelopes s ! j)\<lparr>balanceCents := balanceCents (envelopes s ! j)
              + (if j = k then targetCents (envelopes s ! k) else 0)
              - (if j = m then targetCents (envelopes s ! k) else 0)\<rparr>"
proof -
  let ?E = "envelopes s"
  let ?tx = "Transaction newId now (or_null (Some (id_env (?E ! m)))) (or_null (Some (id_env (?E ! k))))
               (targetCents (?E ! k)) nt"
  have "?E ! m \<in> set ?E" "?E ! k \<in> set ?E" using assms(2,3) by simp_all
  then have ne: "id_env (?E ! m) \<noteq> []" "id_env (?E ! k) \<noteq> []"
    using assms(1) by (auto simp: ids_wf_def)
  have ft: "fromEnvelopeId ?tx = Some (id_env (?E ! m))" "toEnvelopeId ?tx = Some (id_env (?E ! k))"
    "amountCents ?tx = targetCents (?E ! k)"
    using ne by (simp_all add: Transaction_def or_null_def)
  have "\<bar>targetCents (?E ! k)\<bar> < 2 ^ 51" using assms(4,5) by simp
  then have rt: "dollarsToCents (fl64 (of_int (targetCents (?E ! k)) / 100)) = targetCents (?E ! k)"
    by (rule dollarsToCents_of_cents)
  have s1: "envelopes s1 = applyTransactionToBalances ?tx 1 ?E"
    using assms(4) by (simp add: s1_def addTransaction_def Let_def rt)
  show "transactions s1 = transactions s" by (simp add: s1_def del: dollarsToCents_0)
  show "length (envelopes s1) = length ?E" by (simp add: s1)
  show "map id_env (envelopes s1) = map id_env ?E" by (simp add: s1)
  have d: "delta ?E ?tx j = (if j = k then targetCents (?E ! k) else 0)
                           - (if j = m then targetCents (?E ! k) else 0)" for j
    unfolding delta_def ft
    using resolve_own [OF assms(1,2)] resolve_own [OF assms(1,3)] by auto
  show "envelopes s1 ! j =
           (?E ! j)\<lparr>balanceCents := balanceCents (?E ! j)
              + (if j = k then targetCents (?E ! k) else 0)
              - (if j = m then targetCents (?E ! k) else 0)\<rparr>" if "j < length ?E"
  proof -
    have r: "refers ?E ?tx j \<longleftrightarrow> j = m \<or> j = k"
      unfolding refers_def ft
      using resolve_own [OF assms(1,2)] resolve_own [OF assms(1,3)] by auto
    have "refers ?E ?tx j \<longrightarrow> \<bar>balanceCents (?E ! j)\<bar> + \<bar>amountCents ?tx\<bar> \<le> 2 ^ 53"
      unfolding r ft(3) using assms(4,6,7) by auto
    then have "balance_after ?E ?tx 1 j = balanceCents (?E ! j) + 1 * delta ?E ?tx j"
      by (rule balance_after_exact) simp
    with that show ?thesis by (simp add: s1 nth_applyTransactionToBalances d)
  qed
qed

lemma allocate_loop:
  fixes newId now :: string
  assumes "ids_wf (envelopes s)" "m < length (envelopes s)"
    and "\<forall>k\<in>set ks. k < length (envelopes s) \<and> 0 < targetCents (envelopes s ! k) \<and>
           targetCents (envelopes s ! k) < 2 ^ 51 \<and>
           \<bar>balanceCents (envelopes s ! k)\<bar> + targetCents (envelopes s ! k) \<le> 2 ^ 53"
    and "distinct ks" "m \<notin> set ks"
    and "\<bar>balanceCents (envelopes s ! m)\<bar> + (\<Sum>k\<leftarrow>ks. targetCents (envelopes s ! k)) \<le> 2 ^ 53"
  defines "s' \<equiv> fold (\<lambda>k s'.
                   (let env = envelopes s' ! k;
                        income = envelopes s' ! m;
                        amountDollars = fl64 (of_int (targetCents env) / 100)
                    in addTransaction (Some (id_env income)) (Some (id_env env))
                         amountDollars ''Auto allocation'' False newId now s'))
                 ks s"
  shows "transactions s' = transactions s \<and>
         length (envelopes s') = length (envelopes s) \<and>
         (\<forall>j<length (envelopes s).
            envelopes s' ! j =
              (envelopes s ! j)\<lparr>balanceCents := balanceCents (envelopes s ! j)
                 + (\<Sum>k\<leftarrow>ks. if j = k then targetCents (envelopes s ! k) else 0)
                 - (if j = m then (\<Sum>k\<leftarrow>ks. targetCents (envelopes s ! k)) else 0)\<rparr>)"
  unfolding s'_def using assms(1-6)
proof (induction ks arbitrary: s)
  case Nil
  then show ?case by simp
next
  case (Cons k ks)
  let ?E = "envelopes s"
  define s1 where "s1 = addTransaction (Some (id_env (?E ! m))) (Some (id_env (?E ! k)))
                  (fl64 (of_int (targetCents (?E ! k)) / 100)) ''Auto allocation'' False newId now s"
  have k: "k < length ?E" "0 < targetCents (?E ! k)" "targetCents (?E ! k) < 2 ^ 51"
    using Cons.prems(3) by simp_all
  have kb: "\<bar>balanceCents (?E ! k)\<bar> + targetCents (?E ! k) \<le> 2 ^ 53"
    using Cons.prems(3) by simp
  have pos: "0 \<le> (\<Sum>k\<leftarrow>ks. targetCents (?E ! k))"
    using Cons.prems(3) by (intro sum_list_nonneg) auto
  have mb: "\<bar>balanceCents (?E ! m)\<bar> + targetCents (?E ! k) \<le> 2 ^ 53"
    using Cons.prems(6) pos by simp
  have km: "k \<noteq> m" "k \<notin> set ks" using Cons.prems(4,5) by auto
  note st = allocate_step [OF Cons.prems(1,2) k mb kb, where nt = "''Auto allocation''"
      and newId = newId and now = now, folded s1_def]
  have wf1: "ids_wf (envelopes s1)" using Cons.prems(1) st(3) by (simp add: ids_wf_map)
  have m1: "m < length (envelopes s1)" using Cons.prems(2) st(2) by simp
  have t1: "targetCents (envelopes s1 ! j) = targetCents (?E ! j)" if "j < length ?E" for j
    using st(4) [OF that] by simp
  have b1: "balanceCents (envelopes s1 ! j) = balanceCents (?E ! j)"
    if "j < length ?E" "j \<noteq> k" "j \<noteq> m" for j
    using st(4) [OF that(1)] that(2,3) by simp
  have ks1: "\<forall>k\<in>set ks. k < length (envelopes s1) \<and> 0 < targetCents (envelopes s1 ! k) \<and>
           targetCents (envelopes s1 ! k) < 2 ^ 51 \<and>
           \<bar>balanceCents (envelopes s1 ! k)\<bar> + targetCents (envelopes s1 ! k) \<le> 2 ^ 53"
  proof
    fix k' assume k': "k' \<in> set ks"
    then have "k' < length ?E" "k' \<noteq> k" "k' \<noteq> m"
      using Cons.prems(3,5) km(2) by auto
    with k' Cons.prems(3) st(2) t1 b1
    show "k' < length (envelopes s1) \<and> 0 < targetCents (envelopes s1 ! k') \<and>
           targetCents (envelopes s1 ! k') < 2 ^ 51 \<and>
           \<bar>balanceCents (envelopes s1 ! k')\<bar> + targetCents (envelopes s1 ! k') \<le> 2 ^ 53"
      by simp
  qed
  have d1: "distinct ks" "m \<notin> set ks" using Cons.prems(4,5) by simp_all
  have sums: "(\<Sum>k\<leftarrow>ks. if j = k then targetCents (envelopes s1 ! k) else 0) =
              (\<Sum>k\<leftarrow>ks. if j = k then targetCents (?E ! k) else 0)"
    "(\<Sum>k\<leftarrow>ks. targetCents (envelopes s1 ! k)) = (\<Sum>k\<leftarrow>ks. targetCents (?E ! k))" for j
    using Cons.prems(3) t1 by (auto intro!: arg_cong [where f = sum_list] map_cong)
  have "balanceCents (envelopes s1 ! m) = balanceCents (?E ! m) - targetCents (?E ! k)"
    using st(4) [OF Cons.prems(2)] km(1) by simp
  then have mb1: "\<bar>balanceCents (envelopes s1 ! m)\<bar> +
                  (\<Sum>k\<leftarrow>ks. targetCents (envelopes s1 ! k)) \<le> 2 ^ 53"
    using Cons.prems(6) k(2) unfolding sums by simp
  note ih = Cons.IH [OF wf1 m1 ks1 d1 mb1]
  have f: "fold (\<lambda>k s'.
                   (let env = envelopes s' ! k;
                        income = envelopes s' ! m;
                        amountDollars = fl64 (of_int (targetCents env) / 100)
                    in addTransaction (Some (id_env income)) (Some (id_env env))
                         amountDollars ''Auto allocation'' False newId now s'))
                 (k # ks) s =
           fold (\<lambda>k s'.
                   (let env = envelopes s' ! k;
                        income = envelopes s' ! m;
                        amountDollars = fl64 (of_int (targetCents env) / 100)
                    in addTransaction (Some (id_env income)) (Some (id_env env))
                         amountDollars ''Auto allocation'' False newId now s'))
                 ks s1"
    by (simp add: s1_def Let_def)
  show ?case
    unfolding f using ih st(1,2) by (auto simp: st(4) sums)
qed

lemma sum_list_single:
  "distinct ks \<Longrightarrow> (\<Sum>k\<leftarrow>ks. if j = k then f k else 0) = (if j \<in> set ks then f j else (0::int))"
  by (induction ks) auto

lemma map_nth_indices: "map (nth xs) (indices P xs) = filter P xs"
proof -
  have "map (nth xs) (filter (\<lambda>k. P (xs ! k)) [0..<length xs]) =
        filter P (map (nth xs) [0..<length xs])"
    by (simp add: filter_map o_def)
  then show ?thesis by (simp add: indices_def map_nth)
qed

text \<open>
  Claim C6, as the code has it. Take a state with an Income envelope and a non-empty
  selection of targets (active, not core, not a credit card, positive target) in which
  the envelope ids are pairwise distinct and non-empty (\<open>addTransaction\<close> finds the
  envelopes by id), every selected target is below \<open>2^51\<close> cents, every selected
  envelope has \<open>|balanceCents| + targetCents \<le> 2^53\<close>, and the Income balance has
  \<open>|balanceCents| + total \<le> 2^53\<close> for the sum \<open>total\<close> of the selected targets. Then
  \<open>autoAllocate\<close> with the confirmation granted leaves the transaction list as it is,
  lowers the Income balance by \<open>total\<close> and raises the balance of each selected envelope
  by its own target.
\<close>

theorem autoAllocate_effect:
  assumes "getIncomeEnvelope s = Some m"
    and "filter isTarget (envelopes s) \<noteq> []"
    and "ids_wf (envelopes s)"
    and "\<forall>e\<in>set (envelopes s).
           isTarget e \<longrightarrow>
           targetCents e < 2 ^ 51 \<and> \<bar>balanceCents e\<bar> + targetCents e \<le> 2 ^ 53"
    and "\<bar>balanceCents (envelopes s ! m)\<bar>
           + sum_list (map targetCents (filter isTarget (envelopes s))) \<le> 2 ^ 53"
  shows "let s' = autoAllocate True newId now s
         in transactions s' = transactions s \<and>
            length (envelopes s') = length (envelopes s) \<and>
            balanceCents (envelopes s' ! m) =
              balanceCents (envelopes s ! m)
                - sum_list (map targetCents (filter isTarget (envelopes s))) \<and>
            (\<forall>k<length (envelopes s).
               isTarget (envelopes s ! k) \<longrightarrow>
               balanceCents (envelopes s' ! k) =
                 balanceCents (envelopes s ! k) + targetCents (envelopes s ! k))"
proof -
  let ?E = "envelopes s"
  let ?ks = "indices isTarget ?E"
  have m: "m < length ?E" "isIncome (?E ! m)"
    using assms(1) by (simp_all add: getIncomeEnvelope_def findIndex_Some_iff)
  have ne: "length ?ks \<noteq> 0" using assms(2) by (simp add: length_indices)
  have ks: "\<forall>k\<in>set ?ks. k < length ?E \<and> 0 < targetCents (?E ! k) \<and>
           targetCents (?E ! k) < 2 ^ 51 \<and>
           \<bar>balanceCents (?E ! k)\<bar> + targetCents (?E ! k) \<le> 2 ^ 53"
  proof
    fix k assume "k \<in> set ?ks"
    then have k: "k < length ?E" "isTarget (?E ! k)" by (simp_all add: set_indices)
    then have "?E ! k \<in> set ?E" by simp
    with assms(4) k show "k < length ?E \<and> 0 < targetCents (?E ! k) \<and>
           targetCents (?E ! k) < 2 ^ 51 \<and>
           \<bar>balanceCents (?E ! k)\<bar> + targetCents (?E ! k) \<le> 2 ^ 53"
      by (auto simp: isTarget_def)
  qed
  have mk: "m \<notin> set ?ks" using m(2) by (simp add: set_indices isTarget_def isCoreEnvelope_def)
  have "(\<Sum>k\<leftarrow>?ks. targetCents (?E ! k)) = sum_list (map targetCents (map (nth ?E) ?ks))"
    by (simp add: o_def)
  then have total: "(\<Sum>k\<leftarrow>?ks. targetCents (?E ! k)) =
                    sum_list (map targetCents (filter isTarget ?E))"
    by (simp only: map_nth_indices)
  have mb: "\<bar>balanceCents (?E ! m)\<bar> + (\<Sum>k\<leftarrow>?ks. targetCents (?E ! k)) \<le> 2 ^ 53"
    using assms(5) unfolding total by simp
  define s' where "s' = autoAllocate True newId now s"
  have a: "s' =
           fold (\<lambda>k s'.
                   (let env = envelopes s' ! k;
                        income = envelopes s' ! m;
                        amountDollars = fl64 (of_int (targetCents env) / 100)
                    in addTransaction (Some (id_env income)) (Some (id_env env))
                         amountDollars ''Auto allocation'' False newId now s'))
                 ?ks s"
    using assms(1) ne by (simp add: s'_def autoAllocate_def Let_def)
  note loop = allocate_loop [OF assms(3) m(1) ks distinct_indices mk mb,
      where newId = newId and now = now, folded a]
  show ?thesis
    unfolding Let_def s'_def [symmetric]
    using loop m(1) mk
    by (auto simp: sum_list_single [OF distinct_indices] total set_indices)
qed

theorem autoAllocate_effect_witness:
  "getIncomeEnvelope groceries_state = Some 0 \<and>
   filter isTarget (envelopes groceries_state) \<noteq> [] \<and>
   ids_wf (envelopes groceries_state) \<and>
   list_all (\<lambda>e. isTarget e \<longrightarrow>
               targetCents e < 2 ^ 51 \<and> \<bar>balanceCents e\<bar> + targetCents e \<le> 2 ^ 53)
     (envelopes groceries_state) \<and>
   \<bar>balanceCents (envelopes groceries_state ! 0)\<bar>
     + sum_list (map targetCents (filter isTarget (envelopes groceries_state))) \<le> 2 ^ 53 \<and>
   isTarget (envelopes groceries_state ! 2) \<and>
   transactions (autoAllocate True ''tx_a'' ''2026-11-01T09:05:00.000Z'' groceries_state) =
     transactions groceries_state \<and>
   balanceCents (envelopes (autoAllocate True ''tx_a'' ''2026-11-01T09:05:00.000Z'' groceries_state) ! 0) = 5000 \<and>
   balanceCents (envelopes (autoAllocate True ''tx_a'' ''2026-11-01T09:05:00.000Z'' groceries_state) ! 2) = 5000"
proof -
  have h1: "getIncomeEnvelope groceries_state = Some 0"
    unfolding groceries_state_eq
    by (simp add: getIncomeEnvelope_def income_new_def Envelope_def truthy_def)
  have h2: "filter isTarget (envelopes groceries_state) \<noteq> []"
    unfolding groceries_state_eq
    by (simp add: isTarget_def isCoreEnvelope_def)
  have h3: "ids_wf (envelopes groceries_state)"
    unfolding groceries_state_eq
    by (simp add: ids_wf_def income_new_def overflow_new_def Envelope_def)
  have h4: "\<forall>e\<in>set (envelopes groceries_state).
           isTarget e \<longrightarrow>
           targetCents e < 2 ^ 51 \<and> \<bar>balanceCents e\<bar> + targetCents e \<le> 2 ^ 53"
    unfolding groceries_state_eq
    by (simp add: isTarget_def isCoreEnvelope_def income_new_def overflow_new_def
        Envelope_def truthy_def not_false_def)
  have h5: "\<bar>balanceCents (envelopes groceries_state ! 0)\<bar>
     + sum_list (map targetCents (filter isTarget (envelopes groceries_state))) \<le> 2 ^ 53"
    unfolding groceries_state_eq
    by (simp add: isTarget_def isCoreEnvelope_def income_new_def overflow_new_def
        Envelope_def truthy_def not_false_def)
  have v: "isTarget (envelopes groceries_state ! 2)"
    "length (envelopes groceries_state) = 3"
    "balanceCents (envelopes groceries_state ! 0) = 10000"
    "balanceCents (envelopes groceries_state ! 2) = 0"
    "targetCents (envelopes groceries_state ! 2) = 5000"
    "sum_list (map targetCents (filter isTarget (envelopes groceries_state))) = 5000"
    unfolding groceries_state_eq
    by (simp_all add: isTarget_def isCoreEnvelope_def income_new_def overflow_new_def
        Envelope_def truthy_def not_false_def)
  show ?thesis
    using h1 h2 h3 h4 h5 v
      autoAllocate_effect [OF h1 h2 h3 h4 h5, of "''tx_a''" "''2026-11-01T09:05:00.000Z''"]
    by (simp add: Let_def list_all_iff)
qed

text \<open>
  The claim as stated has no condition on the ids. In the budget with two envelopes of id
  \<open>env_income\<close> the Income envelope is the third one, but the transfer is taken from the
  first envelope of that id: the Income balance stays at 0 while Groceries receives its
  target of 5000.
\<close>

lemma twin_state_eq:
  "twin_state =
     \<lparr>envelopes = [income_new\<lparr>isIncome := False\<rparr>, overflow_new, income_new,
        \<lparr>id_env = ''env_1'', name = ''Groceries'', targetCents = 5000, balanceCents = 0,
         isIncome = False, isOverflow = False, isCreditCard = False, isActive = True\<rparr>],
      transactions = [], bankBalanceCents = 0,
      settings = \<lparr>transactionRetentionDays = Some 30\<rparr>\<rparr>"
  unfolding twin_state_def fresh_state_eq
  by (simp add: updateEnvelope_def no_updates_def assign_def eval_defs)

theorem autoAllocate_twin_id_counterexample:
  "getIncomeEnvelope twin_state = Some 2 \<and>
   sum_list (map targetCents (filter isTarget (envelopes twin_state))) = 5000 \<and>
   map balanceCents (envelopes twin_state) = [0, 0, 0, 0] \<and>
   map balanceCents
     (envelopes (autoAllocate True ''tx_a'' ''2026-11-01T09:05:00.000Z'' twin_state)) =
   [- 5000, 0, 0, 5000]"
  unfolding twin_state_eq
  by (simp add: autoAllocate_def eval_defs)

section \<open>Garbage collection on the scenario\<close>

text \<open>
  Groceries and Old are both inactive with a zero balance; Groceries is still referenced
  by the merge transaction and stays, Old is removed.
\<close>

theorem cleanup_removes_exactly_witness:
  "list_all constructed (transactions gc_state) \<and>
   map id_env (envelopes gc_state) = [''env_income'', ''env_overflow'', ''env_1'', ''env_2''] \<and>
   map id_env (envelopes (cleanupUnusedEnvelopes gc_state)) =
     [''env_income'', ''env_overflow'', ''env_1'']"
proof -
  have h: "\<forall>tx\<in>set (transactions gc_state). constructed tx"
    unfolding gc_state_eq by (simp add: constructed_def or_null_def)
  have "map id_env (filter (\<lambda>env. \<not> removable (transactions gc_state) env) (envelopes gc_state)) =
        [''env_income'', ''env_overflow'', ''env_1'']"
    unfolding gc_state_eq
    by (simp add: removable_def isCoreEnvelope_def income_new_def overflow_new_def Envelope_def
        truthy_def not_false_def)
  moreover have "map id_env (envelopes gc_state) =
                 [''env_income'', ''env_overflow'', ''env_1'', ''env_2'']"
    unfolding gc_state_eq by (simp add: income_new_def overflow_new_def Envelope_def)
  ultimately show ?thesis
    using h cleanup_removes_exactly [OF h] by (simp add: list_all_iff)
qed

section \<open>The allocation total on the scenario states\<close>

text \<open>
  Claim C10. \<open>getTotalAllocationsCents\<close> should add the targets of the eligible envelopes
  only (active, not core, not a credit card, positive target: the selection \<open>isTarget\<close>
  that \<open>autoAllocate\<close> makes). The code adds the target of every envelope whose target
  is positive. On a budget holding an active
  credit-card envelope with a target of 2500 cents the eligible envelopes add up to 0 and
  the function returns 2500; on the budget in which Groceries (target 5000) was deleted,
  and so is inactive, they add up to 0 and the function returns 5000.
\<close>

theorem allocations_count_ineligible:
  "getTotalAllocationsCents card_state = 2500 \<and>
   sum_list (map targetCents (filter isTarget (envelopes card_state))) = 0 \<and>
   getTotalAllocationsCents merged_state = 5000 \<and>
   sum_list (map targetCents (filter isTarget (envelopes merged_state))) = 0"
  unfolding merged_state_eq
  by (simp add: card_state_def getTotalAllocationsCents_def isCore_def isCredit_def eval_defs)

end
